theory Spec2Isabelle
  imports Main "HOL-Library.Word"
begin

section \<open>Data model of the autoconvert2 chain search\<close>

text \<open>
  The embedded functions are those of the autoconvert2 element:
  \<^verbatim>\<open>find_pad_templates\<close>, \<^verbatim>\<open>create_factory_index_entry\<close>, \<^verbatim>\<open>index_factories\<close>,
  \<^verbatim>\<open>init_chain_generator\<close>, \<^verbatim>\<open>validate_chain_caps\<close>,
  \<^verbatim>\<open>validate_non_consecutive_elements\<close>, \<^verbatim>\<open>gst_auto_convert2_validate_chain\<close>,
  \<^verbatim>\<open>advance_chain_generator\<close> and \<^verbatim>\<open>generate_next_chain\<close>.

  Capabilities (\<^verbatim>\<open>GstCaps\<close>) belong to the GStreamer core library; they are a type
  parameter \<open>'c\<close>, and \<^verbatim>\<open>gst_caps_can_intersect\<close>, \<^verbatim>\<open>gst_caps_new_empty\<close> and
  \<^verbatim>\<open>gst_caps_merge\<close> are parameters of the functions that call them. Reference counts
  are left out.

  \<^verbatim>\<open>GstPadDirection\<close>, \<^verbatim>\<open>GstStaticPadTemplate\<close> and \<^verbatim>\<open>GstElementFactory\<close> are GStreamer
  core types too. A static pad template is modelled with the two fields the code reads,
  and a factory with its list of static pad templates
  (\<^verbatim>\<open>gst_element_factory_get_static_pad_templates\<close>) and a name that tells factories apart.
\<close>

datatype GstPadDirection = GST_PAD_UNKNOWN | GST_PAD_SRC | GST_PAD_SINK

record 'c GstStaticPadTemplate =
  direction :: GstPadDirection
  static_caps :: 'c

record 'c GstElementFactory =
  factory_name :: string
  static_pad_templates :: "'c GstStaticPadTemplate list"

text \<open>
  A \<^verbatim>\<open>struct FactoryListEntry\<close> lives on the heap; the factory index and the chain
  hold pointers to entries, and the duplicate validator compares those pointers. An
  entry pointer is an address, the heap a function from addresses to entries.
\<close>

type_synonym entry_ptr = nat

record 'c FactoryListEntry =
  sink_pad_template :: "'c GstStaticPadTemplate"
  src_pad_template :: "'c GstStaticPadTemplate"
  sink_caps :: 'c
  src_caps :: 'c
  factory :: "'c GstElementFactory"

type_synonym 'c heap = "entry_ptr \<Rightarrow> 'c FactoryListEntry"

text \<open>
  A \<^verbatim>\<open>GSList *\<close> into the immutable factory index is the list of \<^verbatim>\<open>data\<close> pointers
  from that node on: \<^verbatim>\<open>NULL\<close> is \<open>[]\<close>, \<^verbatim>\<open>it->data\<close> is the head and \<^verbatim>\<open>it->next\<close>
  the tail. The array \<^verbatim>\<open>GSList **\<close> of cursors is a list of such lists.
\<close>

type_synonym GSList = "entry_ptr list"

datatype fault = NullPointer | OutOfBounds

text \<open>\<^verbatim>\<open>chain[i]->data\<close>: reading outside the array or through \<^verbatim>\<open>NULL\<close> is a fault.\<close>

definition node_data :: "GSList list \<Rightarrow> int \<Rightarrow> fault + entry_ptr" where
  "node_data chain i =
     (if i < 0 \<or> int (length chain) \<le> i then Inl OutOfBounds
      else case chain ! nat i of [] \<Rightarrow> Inl NullPointer | p # _ \<Rightarrow> Inr p)"

text \<open>
  \<^verbatim>\<open>guint\<close> is a 32-bit unsigned integer and \<^verbatim>\<open>int\<close> a 32-bit signed one. A \<^verbatim>\<open>guint\<close>
  is held as a \<open>nat\<close>; the conversion to \<^verbatim>\<open>int\<close> and the unsigned subtraction go
  through \<open>32 word\<close>, so that \<^verbatim>\<open>chain_length - 2\<close> wraps as it does in C. The depths and
  counters of the loops are an \<open>int\<close> or a \<open>nat\<close>: for chains shorter than \<open>2 ^ 31\<close>, which
  the properties of the validators assume, they never leave the range of the C types,
  and a comparison between an \<^verbatim>\<open>int\<close> and a \<^verbatim>\<open>guint\<close> compares the numbers.
\<close>

definition guint_to_int :: "nat \<Rightarrow> int" where
  "guint_to_int u = sint (word_of_nat u :: 32 word)"

definition guint_sub :: "nat \<Rightarrow> nat \<Rightarrow> nat" where
  "guint_sub a b = unat ((word_of_nat a :: 32 word) - word_of_nat b)"

section \<open>The validators\<close>

text \<open>
  \<^verbatim>\<open>validate_chain_caps\<close>: \<^verbatim>\<open>int depth = chain_length; do { ... } while (--depth >= 0);\<close>
  The upstream capabilities of boundary \<open>depth\<close> are \<^verbatim>\<open>chain_sink_caps\<close> at depth 0 and
  the \<^verbatim>\<open>src_caps\<close> of \<^verbatim>\<open>chain[depth - 1]\<close> otherwise; the downstream ones are
  \<^verbatim>\<open>chain_src_caps\<close> at depth \<^verbatim>\<open>chain_length\<close> and the \<^verbatim>\<open>sink_caps\<close> of \<^verbatim>\<open>chain[depth]\<close>
  otherwise.
\<close>

definition upstream_caps :: "'c heap \<Rightarrow> 'c \<Rightarrow> GSList list \<Rightarrow> int \<Rightarrow> fault + 'c" where
  "upstream_caps h chain_sink_caps chain depth =
     (if depth = 0 then Inr chain_sink_caps
      else case node_data chain (depth - 1) of
             Inl e \<Rightarrow> Inl e
           | Inr p \<Rightarrow> Inr (src_caps (h p)))"

definition downstream_caps ::
  "'c heap \<Rightarrow> 'c \<Rightarrow> GSList list \<Rightarrow> nat \<Rightarrow> int \<Rightarrow> fault + 'c" where
  "downstream_caps h chain_src_caps chain chain_length depth =
     (if depth = int chain_length then Inr chain_src_caps
      else case node_data chain depth of
             Inl e \<Rightarrow> Inl e
           | Inr p \<Rightarrow> Inr (sink_caps (h p)))"

function validate_chain_caps_loop ::
  "'c heap \<Rightarrow> ('c \<Rightarrow> 'c \<Rightarrow> bool) \<Rightarrow> 'c \<Rightarrow> 'c \<Rightarrow> GSList list \<Rightarrow> nat \<Rightarrow> int \<Rightarrow> fault + int"
where
  "validate_chain_caps_loop h can_intersect chain_sink_caps chain_src_caps chain chain_length depth =
     (case upstream_caps h chain_sink_caps chain depth of
        Inl e \<Rightarrow> Inl e
      | Inr src \<Rightarrow>
          (case downstream_caps h chain_src_caps chain chain_length depth of
             Inl e \<Rightarrow> Inl e
           | Inr snk \<Rightarrow>
               if \<not> can_intersect src snk then Inr depth
               else if depth - 1 \<ge> 0
                 then validate_chain_caps_loop h can_intersect chain_sink_caps chain_src_caps
                        chain chain_length (depth - 1)
                 else Inr (depth - 1)))"
  by pat_completeness auto
termination
  by (relation "measure (\<lambda>(h, ci, a, b, chain, n, depth). nat depth)") auto

declare validate_chain_caps_loop.simps [simp del]

definition validate_chain_caps ::
  "'c heap \<Rightarrow> ('c \<Rightarrow> 'c \<Rightarrow> bool) \<Rightarrow> 'c \<Rightarrow> 'c \<Rightarrow> GSList list \<Rightarrow> nat \<Rightarrow> fault + int" where
  "validate_chain_caps h can_intersect chain_sink_caps chain_src_caps chain chain_length =
     validate_chain_caps_loop h can_intersect chain_sink_caps chain_src_caps chain chain_length
       (guint_to_int chain_length)"

text \<open>
  \<^verbatim>\<open>validate_non_consecutive_elements\<close>:
  \<^verbatim>\<open>for (depth = chain_length - 2; depth >= 0; depth--) if (chain[depth]->data == chain[depth + 1]->data) break;\<close>
  The subtraction is unsigned and its result is converted to \<^verbatim>\<open>int\<close>.
\<close>

function validate_non_consecutive_loop :: "GSList list \<Rightarrow> int \<Rightarrow> fault + int" where
  "validate_non_consecutive_loop chain depth =
     (if depth \<ge> 0 then
        (case node_data chain depth of
           Inl e \<Rightarrow> Inl e
         | Inr a \<Rightarrow>
             (case node_data chain (depth + 1) of
                Inl e \<Rightarrow> Inl e
              | Inr b \<Rightarrow>
                  if a = b then Inr depth
                  else validate_non_consecutive_loop chain (depth - 1)))
      else Inr depth)"
  by pat_completeness auto
termination
  by (relation "measure (\<lambda>(chain, depth). nat (depth + 1))") auto

declare validate_non_consecutive_loop.simps [simp del]

definition validate_non_consecutive_elements ::
  "'c \<Rightarrow> 'c \<Rightarrow> GSList list \<Rightarrow> nat \<Rightarrow> fault + int" where
  "validate_non_consecutive_elements chain_sink_caps chain_src_caps chain chain_length =
     validate_non_consecutive_loop chain (guint_to_int (guint_sub chain_length 2))"

text \<open>
  \<^verbatim>\<open>gst_auto_convert2_validate_chain\<close> runs the array of validators in order and returns
  the first result that is not \<open>-1\<close>.
\<close>

type_synonym 'c validator = "'c \<Rightarrow> 'c \<Rightarrow> GSList list \<Rightarrow> nat \<Rightarrow> fault + int"

fun validate_chain_loop :: "'c validator list \<Rightarrow> 'c validator" where
  "validate_chain_loop [] chain_sink_caps chain_src_caps chain chain_length = Inr (- 1)"
| "validate_chain_loop (v # vs) chain_sink_caps chain_src_caps chain chain_length =
     (case v chain_sink_caps chain_src_caps chain chain_length of
        Inl e \<Rightarrow> Inl e
      | Inr depth \<Rightarrow>
          if depth \<noteq> - 1 then Inr depth
          else validate_chain_loop vs chain_sink_caps chain_src_caps chain chain_length)"

definition validators :: "'c heap \<Rightarrow> ('c \<Rightarrow> 'c \<Rightarrow> bool) \<Rightarrow> 'c validator list" where
  "validators h can_intersect =
     [validate_chain_caps h can_intersect, validate_non_consecutive_elements]"

definition gst_auto_convert2_validate_chain ::
  "'c heap \<Rightarrow> ('c \<Rightarrow> 'c \<Rightarrow> bool) \<Rightarrow> 'c validator" where
  "gst_auto_convert2_validate_chain h can_intersect =
     validate_chain_loop (validators h can_intersect)"

section \<open>Catalog build\<close>

text \<open>
  \<^verbatim>\<open>find_pad_templates\<close> walks the static pad templates of a factory. A template whose
  direction is \<^verbatim>\<open>GST_PAD_SINK\<close> selects the sink slot, any other the source slot; a slot
  that is already filled ends the walk with \<^verbatim>\<open>FALSE\<close>. The result holds the return
  value and the two output parameters.
\<close>

fun find_pad_templates_loop ::
  "'c GstStaticPadTemplate list \<Rightarrow> 'c GstStaticPadTemplate option \<Rightarrow>
   'c GstStaticPadTemplate option \<Rightarrow>
   bool \<times> 'c GstStaticPadTemplate option \<times> 'c GstStaticPadTemplate option" where
  "find_pad_templates_loop [] sink_t src_t = (sink_t \<noteq> None \<and> src_t \<noteq> None, sink_t, src_t)"
| "find_pad_templates_loop (pad_template # it) sink_t src_t =
     (if direction pad_template = GST_PAD_SINK then
        (if sink_t \<noteq> None then (False, sink_t, src_t)
         else find_pad_templates_loop it (Some pad_template) src_t)
      else
        (if src_t \<noteq> None then (False, sink_t, src_t)
         else find_pad_templates_loop it sink_t (Some pad_template)))"

definition find_pad_templates ::
  "'c GstElementFactory \<Rightarrow>
   bool \<times> 'c GstStaticPadTemplate option \<times> 'c GstStaticPadTemplate option" where
  "find_pad_templates fac = find_pad_templates_loop (static_pad_templates fac) None None"

definition create_factory_index_entry ::
  "'c GstElementFactory \<Rightarrow> 'c GstStaticPadTemplate \<Rightarrow> 'c GstStaticPadTemplate \<Rightarrow>
   'c FactoryListEntry" where
  "create_factory_index_entry fac sink_t src_t =
     \<lparr>sink_pad_template = sink_t, src_pad_template = src_t,
      sink_caps = static_caps sink_t, src_caps = static_caps src_t, factory = fac\<rparr>"

text \<open>
  The element: its private data and the heap of entries. \<^verbatim>\<open>g_malloc\<close> hands out the
  address \<open>heap_top\<close>, which no earlier entry has.
\<close>

record 'c GstAutoConvert2 =
  entries :: "'c heap"
  heap_top :: entry_ptr
  priv_factory_index :: GSList
  priv_sink_caps :: 'c
  priv_src_caps :: 'c

definition g_malloc_entry ::
  "'c FactoryListEntry \<Rightarrow> 'c GstAutoConvert2 \<Rightarrow> entry_ptr \<times> 'c GstAutoConvert2" where
  "g_malloc_entry entry ac =
     (heap_top ac, ac\<lparr>entries := (entries ac)(heap_top ac := entry), heap_top := heap_top ac + 1\<rparr>)"

text \<open>The first loop of \<^verbatim>\<open>index_factories\<close>: every qualifying factory is prepended.\<close>

fun index_factories_loop ::
  "'c GstElementFactory list \<Rightarrow> 'c GstAutoConvert2 \<Rightarrow> 'c GstAutoConvert2" where
  "index_factories_loop [] ac = ac"
| "index_factories_loop (fac # it) ac =
     (case find_pad_templates fac of
        (True, Some sink_t, Some src_t) \<Rightarrow>
          (let (entry, ac') = g_malloc_entry (create_factory_index_entry fac sink_t src_t) ac
           in index_factories_loop it (ac'\<lparr>priv_factory_index := entry # priv_factory_index ac'\<rparr>))
      | _ \<Rightarrow> index_factories_loop it ac)"

text \<open>The second loop: the unions of the sink and of the source capabilities.\<close>

fun accumulate_caps_loop ::
  "('c \<Rightarrow> 'c \<Rightarrow> 'c) \<Rightarrow> GSList \<Rightarrow> 'c GstAutoConvert2 \<Rightarrow> 'c GstAutoConvert2" where
  "accumulate_caps_loop gst_caps_merge [] ac = ac"
| "accumulate_caps_loop gst_caps_merge (entry # i) ac =
     accumulate_caps_loop gst_caps_merge i
       (ac\<lparr>priv_sink_caps := gst_caps_merge (priv_sink_caps ac) (sink_caps (entries ac entry)),
           priv_src_caps := gst_caps_merge (priv_src_caps ac) (src_caps (entries ac entry))\<rparr>)"

datatype element_error = NOT_IMPLEMENTED

text \<open>
  \<^verbatim>\<open>klass->get_factories\<close> is a method a subclass supplies: \<open>None\<close> when the class has
  none, otherwise the list of factories it returns.
\<close>

definition index_factories ::
  "'c GstElementFactory list option \<Rightarrow> 'c \<Rightarrow> ('c \<Rightarrow> 'c \<Rightarrow> 'c) \<Rightarrow> 'c GstAutoConvert2 \<Rightarrow>
   element_error + 'c GstAutoConvert2" where
  "index_factories get_factories gst_caps_new_empty gst_caps_merge ac =
     (case get_factories of
        None \<Rightarrow> Inl NOT_IMPLEMENTED
      | Some factories \<Rightarrow>
          (let ac1 = ac\<lparr>priv_sink_caps := gst_caps_new_empty, priv_src_caps := gst_caps_new_empty\<rparr>;
               ac2 = index_factories_loop factories ac1
           in Inr (accumulate_caps_loop gst_caps_merge (priv_factory_index ac2) ac2)))"

section \<open>The chain generator\<close>

record 'c GstAutoConvert2TransformRoute =
  route_sink_caps :: 'c
  route_src_caps :: 'c

record 'c ChainGenerator =
  gen_sink_caps :: 'c
  gen_src_caps :: 'c
  gen_length :: nat
  iterators :: "GSList list"
  init :: bool

text \<open>\<^verbatim>\<open>init_chain_generator\<close>: every one of the \<open>length\<close> cursors is the factory index.\<close>

definition init_chain_generator ::
  "GSList \<Rightarrow> 'c GstAutoConvert2TransformRoute \<Rightarrow> nat \<Rightarrow> 'c ChainGenerator" where
  "init_chain_generator factory_index transform_route len =
     \<lparr>gen_sink_caps = route_sink_caps transform_route,
      gen_src_caps = route_src_caps transform_route,
      gen_length = len,
      iterators = replicate len factory_index,
      init = True\<rparr>"

text \<open>
  The first loop of \<^verbatim>\<open>advance_chain_generator\<close>:
  \<^verbatim>\<open>for (i = starting_depth; i < len; i++) { *it = (*it)->next; if (*it) break; else *it = factory_index; }\<close>
  It returns the cursors and the final \<open>i\<close>. Advancing a \<^verbatim>\<open>NULL\<close> cursor, or a cursor
  outside the array, is a fault.
\<close>

function advance_loop ::
  "GSList \<Rightarrow> GSList list \<Rightarrow> nat \<Rightarrow> nat \<Rightarrow> fault + (GSList list \<times> nat)" where
  "advance_loop factory_index its len i =
     (if i < len then
        (if length its \<le> i then Inl OutOfBounds
         else case its ! i of
                [] \<Rightarrow> Inl NullPointer
              | _ # nxt \<Rightarrow>
                  if nxt \<noteq> [] then Inr (its[i := nxt], i)
                  else advance_loop factory_index (its[i := factory_index]) len (i + 1))
      else Inr (its, i))"
  by pat_completeness auto
termination
  by (relation "measure (\<lambda>(factory_index, its, len, i). len - i)") auto

declare advance_loop.simps [simp del]

text \<open>
  The second loop: \<^verbatim>\<open>for (i = 0; i != starting_depth; i++) iterators[i] = factory_index;\<close>
  The counter starts at 0, so it reaches \<open>starting_depth\<close> from below. A write past the
  end of the array is a fault.
\<close>

function reset_loop :: "GSList \<Rightarrow> GSList list \<Rightarrow> nat \<Rightarrow> nat \<Rightarrow> fault + GSList list" where
  "reset_loop factory_index its starting_depth i =
     (if i < starting_depth then
        (if length its \<le> i then Inl OutOfBounds
         else reset_loop factory_index (its[i := factory_index]) starting_depth (i + 1))
      else Inr its)"
  by pat_completeness auto
termination
  by (relation "measure (\<lambda>(factory_index, its, starting_depth, i). starting_depth - i)") auto

declare reset_loop.simps [simp del]

definition advance_chain_generator ::
  "'c ChainGenerator \<Rightarrow> GSList \<Rightarrow> nat \<Rightarrow> fault + (bool \<times> 'c ChainGenerator)" where
  "advance_chain_generator generator factory_index starting_depth =
     (case advance_loop factory_index (iterators generator) (gen_length generator) starting_depth of
        Inl e \<Rightarrow> Inl e
      | Inr (its, i) \<Rightarrow>
          if i = gen_length generator then Inr (False, generator\<lparr>iterators := its\<rparr>)
          else (case reset_loop factory_index its starting_depth 0 of
                  Inl e \<Rightarrow> Inl e
                | Inr its' \<Rightarrow> Inr (True, generator\<lparr>iterators := its'\<rparr>)))"

text \<open>
  \<^verbatim>\<open>generate_next_chain\<close>. The loop \<^verbatim>\<open>for (;;)\<close> has no bound of its own, so the model
  counts its iterations: \<open>None\<close> means the count ran out before the loop returned.
  \<^verbatim>\<open>klass->validate_chain\<close> is the parameter \<open>validate_chain\<close>.
\<close>

fun generate_next_chain_loop ::
  "nat \<Rightarrow> 'c validator \<Rightarrow> GSList \<Rightarrow> 'c ChainGenerator \<Rightarrow> int \<Rightarrow>
   (fault + bool \<times> 'c ChainGenerator) option" where
  "generate_next_chain_loop 0 validate_chain factory_index gen depth = None"
| "generate_next_chain_loop (Suc n) validate_chain factory_index gen depth =
     (case (if init gen then Inr (True, gen\<lparr>init := False\<rparr>)
            else advance_chain_generator gen factory_index (nat depth)) of
        Inl e \<Rightarrow> Some (Inl e)
      | Inr (False, gen') \<Rightarrow> Some (Inr (False, gen'))
      | Inr (True, gen') \<Rightarrow>
          (case validate_chain (gen_sink_caps gen') (gen_src_caps gen') (iterators gen')
                  (gen_length gen') of
             Inl e \<Rightarrow> Some (Inl e)
           | Inr depth' \<Rightarrow>
               if depth' < 0 then Some (Inr (True, gen'))
               else generate_next_chain_loop n validate_chain factory_index gen'
                      (if depth' > 0 then depth' - 1 else depth')))"

declare generate_next_chain_loop.simps [simp del]

definition generate_next_chain ::
  "nat \<Rightarrow> 'c validator \<Rightarrow> 'c GstAutoConvert2 \<Rightarrow> 'c ChainGenerator \<Rightarrow>
   (fault + bool \<times> 'c ChainGenerator) option" where
  "generate_next_chain n validate_chain ac gen =
     (if priv_factory_index ac = [] then Some (Inr (False, gen))
      else generate_next_chain_loop n validate_chain (priv_factory_index ac) gen 0)"

section \<open>Notions the properties are stated with\<close>

text \<open>
  A candidate chain is an array of cursors none of which is \<^verbatim>\<open>NULL\<close>; the entry at
  position \<open>i\<close> is \<^verbatim>\<open>chain[i]->data\<close>.
\<close>

definition no_null_cursor :: "GSList list \<Rightarrow> bool" where
  "no_null_cursor chain = list_all (\<lambda>it. it \<noteq> []) chain"

definition chain_entry :: "GSList list \<Rightarrow> nat \<Rightarrow> entry_ptr" where
  "chain_entry chain i = hd (chain ! i)"

text \<open>
  The \<open>N + 1\<close> boundaries of a chain of length \<open>N\<close>: before position 0 stand the
  source capabilities, after position \<open>N - 1\<close> the destination capabilities, and
  boundary \<open>i\<close> pairs the output of position \<open>i - 1\<close> with the input of position \<open>i\<close>.
\<close>

definition boundary_intersects ::
  "'c heap \<Rightarrow> ('c \<Rightarrow> 'c \<Rightarrow> bool) \<Rightarrow> 'c \<Rightarrow> 'c \<Rightarrow> GSList list \<Rightarrow> nat \<Rightarrow> bool" where
  "boundary_intersects h can_intersect source_caps destination_caps chain i =
     can_intersect
       (if i = 0 then source_caps else src_caps (h (chain_entry chain (i - 1))))
       (if i = length chain then destination_caps else sink_caps (h (chain_entry chain i)))"

text \<open>Positions \<open>d\<close> and \<open>d + 1\<close> hold the same catalog entry.\<close>

definition adjacent_duplicate :: "GSList list \<Rightarrow> nat \<Rightarrow> bool" where
  "adjacent_duplicate chain d = (chain_entry chain d = chain_entry chain (Suc d))"

text \<open>
  The result a validator may return according to the specification: the sentinel \<open>-1\<close>
  or a depth between 0 and \<open>N - 1\<close>.
\<close>

definition specified_validator_result :: "nat \<Rightarrow> fault + int \<Rightarrow> bool" where
  "specified_validator_result N res =
     (case res of Inl e \<Rightarrow> False | Inr d \<Rightarrow> d = - 1 \<or> (0 \<le> d \<and> d \<le> int N - 1))"





definition indexed_factories :: "'c GstAutoConvert2 \<Rightarrow> 'c GstElementFactory list" where
  "indexed_factories ac = map (\<lambda>entry. factory (entries ac entry)) (priv_factory_index ac)"

text \<open>
  A cursor is valid for a factory index when it points at one of its nodes: it is a
  non-empty suffix of the index. A cursor stands at the last entry when its
  \<^verbatim>\<open>next\<close> pointer is \<^verbatim>\<open>NULL\<close>.
\<close>

definition valid_cursor :: "GSList \<Rightarrow> GSList \<Rightarrow> bool" where
  "valid_cursor factory_index it =
     (it \<noteq> [] \<and> length it \<le> length factory_index \<and>
      drop (length factory_index - length it) factory_index = it)"

definition valid_iterators :: "GSList \<Rightarrow> GSList list \<Rightarrow> bool" where
  "valid_iterators factory_index its = list_all (valid_cursor factory_index) its"

definition at_last_entry :: "GSList \<Rightarrow> bool" where
  "at_last_entry it = (tl it = [])"

text \<open>
  The position at which the carry of an advance from depth \<open>d\<close> stops: the first position
  from \<open>d\<close> upwards whose cursor is not at the last entry, or the length of the array
  when there is none.
\<close>

definition carry_stop :: "GSList list \<Rightarrow> nat \<Rightarrow> nat" where
  "carry_stop its d = d + length (takeWhile at_last_entry (drop d its))"

text \<open>
  The cursor tuple as a mixed-radix number: the digit of a position is the number of
  catalog entries before its cursor, position 0 is the least significant digit and
  the last position the most significant one. \<open>chain_of_rank\<close> is the tuple of a number.
\<close>

fun chain_rank :: "GSList \<Rightarrow> GSList list \<Rightarrow> nat" where
  "chain_rank factory_index [] = 0"
| "chain_rank factory_index (it # its) =
     (length factory_index - length it) + length factory_index * chain_rank factory_index its"

fun chain_of_rank :: "GSList \<Rightarrow> nat \<Rightarrow> nat \<Rightarrow> GSList list" where
  "chain_of_rank factory_index 0 r = []"
| "chain_of_rank factory_index (Suc n) r =
     drop (r mod length factory_index) factory_index #
     chain_of_rank factory_index n (r div length factory_index)"

text \<open>
  All candidate chains of length \<open>n\<close> over the catalog, in the order of their numbers,
  and the chains seen by calling \<^verbatim>\<open>advance_chain_generator\<close> again and again with the
  same depth until it reports exhaustion: the chain before each call. At most \<open>n\<close>
  calls are made; \<open>None\<close> stands for a fault or for \<open>n\<close> calls without exhaustion.
\<close>

definition all_chains :: "GSList \<Rightarrow> nat \<Rightarrow> GSList list list" where
  "all_chains factory_index n =
     map (chain_of_rank factory_index n) [0..<length factory_index ^ n]"

fun visited_chains ::
  "nat \<Rightarrow> 'c ChainGenerator \<Rightarrow> GSList \<Rightarrow> nat \<Rightarrow> GSList list list option" where
  "visited_chains 0 gen factory_index skip_from_depth = None"
| "visited_chains (Suc n) gen factory_index skip_from_depth =
     (case advance_chain_generator gen factory_index skip_from_depth of
        Inl e \<Rightarrow> None
      | Inr (False, gen') \<Rightarrow> Some [iterators gen]
      | Inr (True, gen') \<Rightarrow>
          map_option ((#) (iterators gen)) (visited_chains n gen' factory_index skip_from_depth))"

text \<open>
  A chain is fully valid when the capabilities intersect at every boundary and no two
  consecutive positions hold the same entry. The naive enumerator tries all candidate
  chains in order and returns the first fully valid one.
\<close>

definition chain_fully_valid ::
  "'c heap \<Rightarrow> ('c \<Rightarrow> 'c \<Rightarrow> bool) \<Rightarrow> 'c \<Rightarrow> 'c \<Rightarrow> GSList list \<Rightarrow> bool" where
  "chain_fully_valid h can_intersect source_caps destination_caps chain =
     (list_all (boundary_intersects h can_intersect source_caps destination_caps chain)
        [0..<Suc (length chain)] \<and>
      list_all (\<lambda>d. \<not> adjacent_duplicate chain d) [0..<length chain - 1])"

definition naive_first_valid_chain ::
  "'c heap \<Rightarrow> ('c \<Rightarrow> 'c \<Rightarrow> bool) \<Rightarrow> 'c GstAutoConvert2TransformRoute \<Rightarrow> GSList \<Rightarrow> nat \<Rightarrow>
   GSList list option" where
  "naive_first_valid_chain h can_intersect route factory_index n =
     find (chain_fully_valid h can_intersect (route_sink_caps route) (route_src_caps route))
       (all_chains factory_index n)"

text \<open>
  What the caller of \<^verbatim>\<open>generate_next_chain\<close> reads: the chain in the cursors when it
  returned \<^verbatim>\<open>TRUE\<close>, nothing when it returned \<^verbatim>\<open>FALSE\<close>.
\<close>

definition search_outcome ::
  "(fault + bool \<times> 'c ChainGenerator) option \<Rightarrow> (fault + GSList list option) option" where
  "search_outcome res =
     map_option (map_sum id (\<lambda>(found, gen). if found then Some (iterators gen) else None)) res"

text \<open>
  The depth from which \<^verbatim>\<open>generate_next_chain\<close> advances after a validator reported
  \<open>depth\<close>: \<^verbatim>\<open>if (depth > 0) depth--;\<close> And the second half of one iteration of its
  loop, from the call of \<^verbatim>\<open>validate_chain\<close> on.
\<close>

definition pruning_depth :: "int \<Rightarrow> nat" where
  "pruning_depth depth = nat (if depth > 0 then depth - 1 else depth)"

definition validate_and_continue ::
  "nat \<Rightarrow> 'c validator \<Rightarrow> GSList \<Rightarrow> 'c ChainGenerator \<Rightarrow>
   (fault + bool \<times> 'c ChainGenerator) option" where
  "validate_and_continue n validate_chain factory_index gen' =
     (case validate_chain (gen_sink_caps gen') (gen_src_caps gen') (iterators gen')
             (gen_length gen') of
        Inl e \<Rightarrow> Some (Inl e)
      | Inr depth' \<Rightarrow>
          if depth' < 0 then Some (Inr (True, gen'))
          else generate_next_chain_loop n validate_chain factory_index gen'
                 (if depth' > 0 then depth' - 1 else depth'))"

section \<open>A small catalog for concrete runs\<close>

text \<open>
  Capabilities are format numbers, and two capabilities intersect when they are equal.
  The entry at address \<open>p\<close> accepts format \<open>p\<close> and produces format \<open>p + 1\<close>.
\<close>

definition demo_factory :: "nat \<Rightarrow> nat GstElementFactory" where
  "demo_factory p =
     \<lparr>factory_name = ''stage'',
      static_pad_templates =
        [\<lparr>direction = GST_PAD_SINK, static_caps = p\<rparr>,
         \<lparr>direction = GST_PAD_SRC, static_caps = p + 1\<rparr>]\<rparr>"

definition demo_heap :: "nat heap" where
  "demo_heap p =
     create_factory_index_entry (demo_factory p)
       \<lparr>direction = GST_PAD_SINK, static_caps = p\<rparr>
       \<lparr>direction = GST_PAD_SRC, static_caps = p + 1\<rparr>"

definition demo_element :: "GSList \<Rightarrow> nat GstAutoConvert2" where
  "demo_element factory_index =
     \<lparr>entries = demo_heap, heap_top = 8, priv_factory_index = factory_index,
      priv_sink_caps = 0, priv_src_caps = 0\<rparr>"

definition demo_route :: "nat \<Rightarrow> nat \<Rightarrow> nat GstAutoConvert2TransformRoute" where
  "demo_route source_caps destination_caps =
     \<lparr>route_sink_caps = source_caps, route_src_caps = destination_caps\<rparr>"

text \<open>A factory with two sink templates and one source template.\<close>

definition demo_mixer :: "nat GstElementFactory" where
  "demo_mixer =
     \<lparr>factory_name = ''mixer'',
      static_pad_templates =
        [\<lparr>direction = GST_PAD_SINK, static_caps = 0\<rparr>,
         \<lparr>direction = GST_PAD_SINK, static_caps = 1\<rparr>,
         \<lparr>direction = GST_PAD_SRC, static_caps = 2\<rparr>]\<rparr>"

text \<open>
  A generator over the catalog \<open>[1, 0]\<close> whose cursor at position 0 stands at the last
  entry and whose cursor at position 1 stands at the first one.
\<close>

definition demo_generator :: "nat ChainGenerator" where
  "demo_generator =
     \<lparr>gen_sink_caps = 0, gen_src_caps = 2, gen_length = 2,
      iterators = [[0], [1, 0]], init = False\<rparr>"



section \<open>The validators: what the loops compute\<close>

lemma guint_to_int_small: "n < 2 ^ 31 \<Longrightarrow> guint_to_int n = int n"
proof -
  assume "n < 2 ^ 31"
  then have "int n < 2 ^ 31" by (metis of_nat_less_iff of_nat_numeral of_nat_power)
  then have "signed_take_bit 31 (int n) = int n"
    by (intro signed_take_bit_int_eq_self) simp_all
  then show ?thesis
    by (simp add: guint_to_int_def signed_of_nat)
qed

lemma guint_sub_two: "n < 2 ^ 31 \<Longrightarrow> guint_to_int (guint_sub n 2) = int n - 2"
proof -
  assume "n < 2 ^ 31"
  then have b: "int n < 2 ^ 31" by (metis of_nat_less_iff of_nat_numeral of_nat_power)
  have "(word_of_nat n :: 32 word) - 2 = word_of_int (int n - 2)"
    by simp
  then have "guint_to_int (guint_sub n 2) = sint (word_of_int (int n - 2) :: 32 word)"
    by (simp add: guint_to_int_def guint_sub_def)
  also have "\<dots> = signed_take_bit 31 (int n - 2)"
    by (simp only: sint_sbintrunc') simp
  also have "\<dots> = int n - 2"
    using b by (intro signed_take_bit_int_eq_self) simp_all
  finally show ?thesis .
qed

lemma node_data_entry:
  "no_null_cursor chain \<Longrightarrow> i < length chain \<Longrightarrow> node_data chain (int i) = Inr (chain_entry chain i)"
  by (cases "chain ! i") (auto simp: node_data_def no_null_cursor_def chain_entry_def list_all_length)

lemma upstream_caps_entry:
  "no_null_cursor chain \<Longrightarrow> d \<le> length chain \<Longrightarrow>
   upstream_caps h a chain (int d) =
     Inr (if d = 0 then a else src_caps (h (chain_entry chain (d - 1))))"
proof (cases d)
  case 0
  then show ?thesis by (simp add: upstream_caps_def)
next
  case (Suc k)
  assume "no_null_cursor chain" "d \<le> length chain"
  with Suc have "node_data chain (int k) = Inr (chain_entry chain k)"
    by (simp add: node_data_entry)
  with Suc show ?thesis by (simp add: upstream_caps_def)
qed

lemma downstream_caps_entry:
  "no_null_cursor chain \<Longrightarrow> d \<le> length chain \<Longrightarrow>
   downstream_caps h b chain (length chain) (int d) =
     Inr (if d = length chain then b else sink_caps (h (chain_entry chain d)))"
  by (simp add: downstream_caps_def node_data_entry)

lemma caps_loop_step:
  "no_null_cursor chain \<Longrightarrow> d \<le> length chain \<Longrightarrow>
   validate_chain_caps_loop h ci a b chain (length chain) (int d) =
     (if \<not> boundary_intersects h ci a b chain d then Inr (int d)
      else if d = 0 then Inr (- 1)
      else validate_chain_caps_loop h ci a b chain (length chain) (int d - 1))"
  by (subst validate_chain_caps_loop.simps)
     (simp add: upstream_caps_entry downstream_caps_entry boundary_intersects_def)

lemma caps_loop_result:
  assumes nn: "no_null_cursor chain"
  shows "d \<le> length chain \<Longrightarrow>
    \<exists>r. validate_chain_caps_loop h ci a b chain (length chain) (int d) = Inr r \<and>
        - 1 \<le> r \<and> r \<le> int d \<and>
        (0 \<le> r \<longrightarrow> \<not> boundary_intersects h ci a b chain (nat r)) \<and>
        (\<forall>j. r < int j \<and> j \<le> d \<longrightarrow> boundary_intersects h ci a b chain j)"
proof (induction d)
  case 0
  then show ?case using caps_loop_step [OF nn, of 0 h ci a b] by auto
next
  case (Suc d)
  have step: "validate_chain_caps_loop h ci a b chain (length chain) (int (Suc d)) =
     (if \<not> boundary_intersects h ci a b chain (Suc d) then Inr (int (Suc d))
      else validate_chain_caps_loop h ci a b chain (length chain) (int d))"
    using caps_loop_step [OF nn Suc.prems, of h ci a b] by simp
  show ?case
  proof (cases "boundary_intersects h ci a b chain (Suc d)")
    case False
    have "nat (1 + int d) = Suc d" by arith
    with False step show ?thesis by auto
  next
    case True
    from Suc obtain r where r:
      "validate_chain_caps_loop h ci a b chain (length chain) (int d) = Inr r"
      "- 1 \<le> r" "r \<le> int d"
      "0 \<le> r \<longrightarrow> \<not> boundary_intersects h ci a b chain (nat r)"
      "\<forall>j. r < int j \<and> j \<le> d \<longrightarrow> boundary_intersects h ci a b chain j"
      by auto
    have "validate_chain_caps_loop h ci a b chain (length chain) (int (Suc d)) = Inr r"
      using True step r(1) by simp
    moreover have "\<forall>j. r < int j \<and> j \<le> Suc d \<longrightarrow> boundary_intersects h ci a b chain j"
      using r(5) True by (auto simp: le_Suc_eq)
    ultimately show ?thesis using r by auto
  qed
qed

lemma nc_loop_negative: "depth < 0 \<Longrightarrow> validate_non_consecutive_loop chain depth = Inr depth"
  by (subst validate_non_consecutive_loop.simps) simp

lemma nc_loop_step:
  assumes "no_null_cursor chain" "Suc d < length chain"
  shows "validate_non_consecutive_loop chain (int d) =
     (if adjacent_duplicate chain d then Inr (int d)
      else validate_non_consecutive_loop chain (int d - 1))"
proof -
  have "node_data chain (int d) = Inr (chain_entry chain d)"
    using assms by (simp add: node_data_entry)
  moreover have "node_data chain (int d + 1) = Inr (chain_entry chain (Suc d))"
    using assms node_data_entry [of chain "Suc d"] by (simp add: add.commute)
  ultimately show ?thesis
    by (subst validate_non_consecutive_loop.simps) (simp add: adjacent_duplicate_def)
qed

lemma nc_loop_result:
  assumes nn: "no_null_cursor chain"
  shows "Suc d < length chain \<Longrightarrow>
    \<exists>r. validate_non_consecutive_loop chain (int d) = Inr r \<and>
        - 1 \<le> r \<and> r \<le> int d \<and>
        (0 \<le> r \<longrightarrow> adjacent_duplicate chain (nat r)) \<and>
        (\<forall>j. r < int j \<and> j \<le> d \<longrightarrow> \<not> adjacent_duplicate chain j)"
proof (induction d)
  case 0
  then show ?case
    using nc_loop_step [OF nn, of 0] nc_loop_negative [of "- 1" chain] by auto
next
  case (Suc d)
  have step: "validate_non_consecutive_loop chain (int (Suc d)) =
     (if adjacent_duplicate chain (Suc d) then Inr (int (Suc d))
      else validate_non_consecutive_loop chain (int d))"
    using nc_loop_step [OF nn Suc.prems] by simp
  show ?case
  proof (cases "adjacent_duplicate chain (Suc d)")
    case True
    have "nat (1 + int d) = Suc d" by arith
    with True step show ?thesis by auto
  next
    case False
    from Suc obtain r where r:
      "validate_non_consecutive_loop chain (int d) = Inr r"
      "- 1 \<le> r" "r \<le> int d"
      "0 \<le> r \<longrightarrow> adjacent_duplicate chain (nat r)"
      "\<forall>j. r < int j \<and> j \<le> d \<longrightarrow> \<not> adjacent_duplicate chain j"
      by auto
    have "validate_non_consecutive_loop chain (int (Suc d)) = Inr r"
      using False step r(1) by simp
    moreover have "\<forall>j. r < int j \<and> j \<le> Suc d \<longrightarrow> \<not> adjacent_duplicate chain j"
      using r(5) False by (auto simp: le_Suc_eq)
    ultimately show ?thesis using r by auto
  qed
qed

lemma validate_non_consecutive_result:
  assumes nn: "no_null_cursor chain" and len: "1 \<le> length chain" "length chain < 2 ^ 31"
  shows "\<exists>r. validate_non_consecutive_elements a b chain (length chain) = Inr r \<and>
        - 1 \<le> r \<and> r \<le> int (length chain) - 2 \<and>
        (0 \<le> r \<longrightarrow> adjacent_duplicate chain (nat r)) \<and>
        (\<forall>j. r < int j \<and> Suc j < length chain \<longrightarrow> \<not> adjacent_duplicate chain j)"
proof (cases "length chain = 1")
  case True
  then have "validate_non_consecutive_elements a b chain (length chain) = Inr (- 1)"
    using len(2) by (simp add: validate_non_consecutive_elements_def guint_sub_two nc_loop_negative)
  with True show ?thesis by auto
next
  case False
  with len obtain d where d: "length chain = Suc (Suc d)"
    by (metis One_nat_def le_neq_implies_less less_imp_Suc_add plus_nat.simps(2))
  then have "int (length chain) - 2 = int d" by simp
  then have start: "validate_non_consecutive_elements a b chain (length chain) =
      validate_non_consecutive_loop chain (int d)"
    using len(2) by (simp add: validate_non_consecutive_elements_def guint_sub_two)
  from d have "Suc d < length chain" by simp
  from nc_loop_result [OF nn this] obtain r where r:
      "validate_non_consecutive_loop chain (int d) = Inr r"
      "- 1 \<le> r" "r \<le> int d"
      "0 \<le> r \<longrightarrow> adjacent_duplicate chain (nat r)"
      "\<forall>j. r < int j \<and> j \<le> d \<longrightarrow> \<not> adjacent_duplicate chain j"
    by auto
  have "\<forall>j. r < int j \<and> Suc j < length chain \<longrightarrow> \<not> adjacent_duplicate chain j"
    using r(5) d by auto
  with r start d show ?thesis by auto
qed

lemma validate_chain_caps_result:
  assumes nn: "no_null_cursor chain" and len: "length chain < 2 ^ 31"
  shows "\<exists>r. validate_chain_caps h ci a b chain (length chain) = Inr r \<and>
        - 1 \<le> r \<and> r \<le> int (length chain) \<and>
        (0 \<le> r \<longrightarrow> \<not> boundary_intersects h ci a b chain (nat r)) \<and>
        (\<forall>j. r < int j \<and> j \<le> length chain \<longrightarrow> boundary_intersects h ci a b chain j)"
  using caps_loop_result [OF nn, of "length chain" h ci a b] len
  by (simp add: validate_chain_caps_def guint_to_int_small)

lemma validate_chain_pipeline:
  "gst_auto_convert2_validate_chain h ci a b chain n =
     (case validate_chain_caps h ci a b chain n of
        Inl e \<Rightarrow> Inl e
      | Inr dc \<Rightarrow> if dc \<noteq> - 1 then Inr dc
                  else (case validate_non_consecutive_elements a b chain n of
                          Inl e \<Rightarrow> Inl e
                        | Inr dn \<Rightarrow> Inr dn))"
  by (simp add: gst_auto_convert2_validate_chain_def validators_def split: sum.splits)

section \<open>Catalog build: what the loops compute\<close>


lemma find_pad_templates_loop_outputs:
  "fst (find_pad_templates_loop ts s r) \<Longrightarrow>
   \<exists>a b. find_pad_templates_loop ts s r = (True, Some a, Some b)"
  by (induction ts arbitrary: s r) (auto split: if_splits)



lemma index_factories_loop_inv:
  "\<forall>p \<in> set (priv_factory_index ac). p < heap_top ac \<Longrightarrow>
   heap_top ac \<le> heap_top (index_factories_loop fs ac) \<and>
   (\<forall>p < heap_top ac. entries (index_factories_loop fs ac) p = entries ac p) \<and>
   (\<forall>p \<in> set (priv_factory_index (index_factories_loop fs ac)).
       p < heap_top (index_factories_loop fs ac)) \<and>
   indexed_factories (index_factories_loop fs ac) =
     rev (filter (\<lambda>fac. fst (find_pad_templates fac)) fs) @ indexed_factories ac"
proof (induction fs arbitrary: ac)
  case Nil
  then show ?case by simp
next
  case (Cons fac fs)
  show ?case
  proof (cases "fst (find_pad_templates fac)")
    case False
    then have "index_factories_loop (fac # fs) ac = index_factories_loop fs ac"
      by (cases "find_pad_templates fac") (auto split: bool.splits option.splits)
    with False Cons show ?thesis by simp
  next
    case True
    then obtain a b where ab: "find_pad_templates fac = (True, Some a, Some b)"
      using find_pad_templates_loop_outputs [of "static_pad_templates fac" None None]
      by (auto simp: find_pad_templates_def)
    define ac1 where "ac1 = ac\<lparr>entries := (entries ac)(heap_top ac := create_factory_index_entry fac a b),
        heap_top := heap_top ac + 1, priv_factory_index := heap_top ac # priv_factory_index ac\<rparr>"
    have step: "index_factories_loop (fac # fs) ac = index_factories_loop fs ac1"
      by (simp add: ab g_malloc_entry_def ac1_def)
    have inv1: "\<forall>p \<in> set (priv_factory_index ac1). p < heap_top ac1"
      using Cons.prems by (auto simp: ac1_def)
    have fac1: "indexed_factories ac1 = fac # indexed_factories ac"
      using Cons.prems by (auto simp: ac1_def indexed_factories_def create_factory_index_entry_def)
    have top1: "heap_top ac1 = heap_top ac + 1" by (simp add: ac1_def)
    have ent1: "\<forall>p < heap_top ac. entries ac1 p = entries ac p" by (simp add: ac1_def)
    from Cons.IH [OF inv1] step True fac1 top1 ent1 show ?thesis by auto
  qed
qed

lemma accumulate_caps_loop_keeps:
  "priv_factory_index (accumulate_caps_loop m xs ac) = priv_factory_index ac \<and>
   entries (accumulate_caps_loop m xs ac) = entries ac"
  by (induction xs arbitrary: ac) auto

lemma index_factories_result:
  assumes "priv_factory_index ac = []"
  shows "\<exists>ac'. index_factories (Some factories) e m ac = Inr ac' \<and>
           indexed_factories ac' = rev (filter (\<lambda>fac. fst (find_pad_templates fac)) factories)"
proof -
  define ac1 where "ac1 = ac\<lparr>priv_sink_caps := e, priv_src_caps := e\<rparr>"
  have "\<forall>p \<in> set (priv_factory_index ac1). p < heap_top ac1"
    using assms by (simp add: ac1_def)
  from index_factories_loop_inv [OF this, of factories]
  have "indexed_factories (index_factories_loop factories ac1) =
          rev (filter (\<lambda>fac. fst (find_pad_templates fac)) factories)"
    using assms by (simp add: indexed_factories_def ac1_def)
  then show ?thesis
    by (simp add: index_factories_def Let_def ac1_def indexed_factories_def
        accumulate_caps_loop_keeps)
qed

section \<open>The generator: what the loops compute\<close>

lemma validate_chain_length_zero:
  "gst_auto_convert2_validate_chain h ci a b [] 0 = Inr (if ci a b then - 2 else 0)"
  by (simp add: validate_chain_pipeline validate_chain_caps_def guint_to_int_def
      validate_chain_caps_loop.simps upstream_caps_def downstream_caps_def
      validate_non_consecutive_elements_def guint_sub_def nc_loop_negative)

lemma advance_length_zero:
  "gen_length gen = 0 \<Longrightarrow>
   advance_chain_generator gen fi 0 = Inr (False, gen\<lparr>iterators := iterators gen\<rparr>)"
  by (simp add: advance_chain_generator_def advance_loop.simps)

lemma generate_loop_length_zero:
  "generate_next_chain_loop (Suc (Suc n)) (gst_auto_convert2_validate_chain h ci) fi
     (init_chain_generator fi route 0) 0 =
   Some (Inr (ci (route_sink_caps route) (route_src_caps route),
              (init_chain_generator fi route 0)\<lparr>init := False\<rparr>))"
  by (simp add: generate_next_chain_loop.simps init_chain_generator_def
      validate_chain_length_zero advance_length_zero)

lemma no_null_cursor_update:
  "no_null_cursor its \<Longrightarrow> c \<noteq> [] \<Longrightarrow> no_null_cursor (its[i := c])"
  by (auto simp: no_null_cursor_def list_all_iff dest: set_update_subset_insert [THEN subsetD])

lemma no_null_cursor_nth: "no_null_cursor its \<Longrightarrow> i < length its \<Longrightarrow> its ! i \<noteq> []"
  by (simp add: no_null_cursor_def list_all_length)

lemma carry_stop_here:
  "i < length its \<Longrightarrow> \<not> at_last_entry (its ! i) \<Longrightarrow> carry_stop its i = i"
  by (simp add: carry_stop_def Cons_nth_drop_Suc [symmetric])

lemma carry_stop_next:
  "i < length its \<Longrightarrow> at_last_entry (its ! i) \<Longrightarrow>
   carry_stop its i = carry_stop (its[i := c]) (Suc i)"
  by (simp add: carry_stop_def Cons_nth_drop_Suc [symmetric])

lemma carry_stop_bounds: "d \<le> length its \<Longrightarrow> d \<le> carry_stop its d \<and> carry_stop its d \<le> length its"
proof -
  assume "d \<le> length its"
  have "length (takeWhile at_last_entry (drop d its)) \<le> length (drop d its)"
    by (rule length_takeWhile_le)
  with \<open>d \<le> length its\<close> show ?thesis by (simp add: carry_stop_def)
qed

lemma take_Suc_update: "i < length xs \<Longrightarrow> take (Suc i) (xs[i := x]) = take i xs @ [x]"
  by (simp add: take_Suc_conv_app_nth)

lemma advance_loop_char:
  assumes fi: "fi \<noteq> []"
  shows "no_null_cursor its \<Longrightarrow> i \<le> length its \<Longrightarrow>
    advance_loop fi its (length its) i =
      Inr (if carry_stop its i < length its
           then (take i its @ replicate (carry_stop its i - i) fi @
                   tl (its ! carry_stop its i) # drop (Suc (carry_stop its i)) its,
                 carry_stop its i)
           else (take i its @ replicate (length its - i) fi, length its))"
proof (induction "length its - i" arbitrary: i its)
  case 0
  then have "i = length its" by simp
  then show ?case by (simp add: advance_loop.simps carry_stop_def)
next
  case (Suc n)
  then have lt: "i < length its" by simp
  with Suc.prems have "its ! i \<noteq> []" by (simp add: no_null_cursor_nth)
  then obtain p nxt where c: "its ! i = p # nxt" by (cases "its ! i") auto
  show ?case
  proof (cases "nxt = []")
    case False
    with c have "\<not> at_last_entry (its ! i)" by (simp add: at_last_entry_def)
    with lt have cs: "carry_stop its i = i" by (rule carry_stop_here)
    have "advance_loop fi its (length its) i = Inr (its[i := nxt], i)"
      using lt c False by (subst advance_loop.simps) simp
    moreover have "its[i := nxt] = take i its @ nxt # drop (Suc i) its"
      using lt by (rule upd_conv_take_nth_drop)
    ultimately show ?thesis using cs lt c by simp
  next
    case True
    with c have last: "at_last_entry (its ! i)" by (simp add: at_last_entry_def)
    let ?its = "its[i := fi]"
    have cs: "carry_stop its i = carry_stop ?its (Suc i)"
      using lt last by (rule carry_stop_next)
    have step: "advance_loop fi its (length its) i = advance_loop fi ?its (length ?its) (Suc i)"
      using lt c True by (subst advance_loop.simps) simp
    have nn: "no_null_cursor ?its"
      using Suc.prems(1) fi by (rule no_null_cursor_update)
    have n: "n = length ?its - Suc i" using Suc.hyps(2) by simp
    have le: "Suc i \<le> length ?its" using lt by simp
    note ih = Suc.hyps(1) [OF n nn le]
    have b: "Suc i \<le> carry_stop ?its (Suc i)" "carry_stop ?its (Suc i) \<le> length ?its"
      using carry_stop_bounds [OF le] by simp_all
    show ?thesis
    proof (cases "carry_stop ?its (Suc i) < length its")
      case True
      let ?j = "carry_stop ?its (Suc i)"
      have r: "replicate (?j - i) fi = fi # replicate (?j - Suc i) fi"
        using b(1) by (simp add: Suc_diff_le replicate_Suc [symmetric] del: replicate_Suc)
      have nth: "?its ! ?j = its ! ?j" using b(1) by simp
      have dr: "drop (Suc ?j) ?its = drop (Suc ?j) its" using b(1) by simp
      from True ih step cs lt show ?thesis
        by (simp add: take_Suc_update r nth dr)
    next
      case False
      have r: "replicate (length its - i) fi = fi # replicate (length its - Suc i) fi"
        using lt by (simp add: Suc_diff_Suc replicate_Suc [symmetric] del: replicate_Suc)
      from False ih step cs lt show ?thesis
        by (simp add: take_Suc_update r)
    qed
  qed
qed

lemma reset_loop_char:
  "i \<le> d \<Longrightarrow> d \<le> length its \<Longrightarrow>
   reset_loop fi its d i = Inr (take i its @ replicate (d - i) fi @ drop d its)"
proof (induction "d - i" arbitrary: i its)
  case 0
  then show ?case by (simp add: reset_loop.simps)
next
  case (Suc n)
  then have lt: "i < d" "i < length its" by simp_all
  have n: "n = d - Suc i" using Suc.hyps(2) by simp
  have "reset_loop fi its d i = reset_loop fi (its[i := fi]) d (Suc i)"
    using lt by (subst reset_loop.simps) simp
  also have "\<dots> = Inr (take (Suc i) (its[i := fi]) @ replicate (d - Suc i) fi @
                       drop d (its[i := fi]))"
    using Suc.hyps(1) [OF n, of "its[i := fi]"] lt Suc.prems by simp
  also have "take (Suc i) (its[i := fi]) = take i its @ [fi]"
    using lt(2) by (rule take_Suc_update)
  also have "drop d (its[i := fi]) = drop d its" using lt(1) by simp
  also have "(take i its @ [fi]) @ replicate (d - Suc i) fi @ drop d its =
             take i its @ replicate (d - i) fi @ drop d its"
    using lt(1) by (simp add: Suc_diff_Suc replicate_Suc [symmetric] del: replicate_Suc)
  finally show ?case .
qed

lemma carry_stop_all_last:
  assumes "d \<le> i" "i < carry_stop its d"
  shows "at_last_entry (its ! i)"
proof -
  let ?tw = "takeWhile at_last_entry (drop d its)"
  from assms have lt: "i - d < length ?tw" by (simp add: carry_stop_def)
  then have "?tw ! (i - d) \<in> set ?tw" by (rule nth_mem)
  then have "at_last_entry (?tw ! (i - d))" by (rule set_takeWhileD [THEN conjunct2])
  moreover have "?tw ! (i - d) = drop d its ! (i - d)" using lt by (rule takeWhile_nth)
  moreover have "i - d < length (drop d its)"
    using lt length_takeWhile_le [of at_last_entry "drop d its"] by simp
  ultimately show ?thesis using assms(1) by simp
qed

lemma carry_stop_not_last:
  assumes "carry_stop its d < length its"
  shows "\<not> at_last_entry (its ! carry_stop its d)"
proof -
  let ?tw = "takeWhile at_last_entry (drop d its)"
  from assms have "length ?tw < length (drop d its)" by (simp add: carry_stop_def)
  then have "\<not> at_last_entry (drop d its ! length ?tw)" by (rule nth_length_takeWhile)
  moreover have "d + length ?tw < length its" using assms by (simp add: carry_stop_def)
  ultimately show ?thesis by (simp add: carry_stop_def)
qed

lemma advance_chain_generator_char:
  assumes fi: "fi \<noteq> []" and nn: "no_null_cursor (iterators gen)"
    and len: "gen_length gen = length (iterators gen)" and d: "d \<le> gen_length gen"
  shows "advance_chain_generator gen fi d =
     Inr (if carry_stop (iterators gen) d < gen_length gen
          then (True, gen\<lparr>iterators :=
                  replicate (carry_stop (iterators gen) d) fi @
                  tl (iterators gen ! carry_stop (iterators gen) d) #
                  drop (Suc (carry_stop (iterators gen) d)) (iterators gen)\<rparr>)
          else (False, gen\<lparr>iterators :=
                  take d (iterators gen) @ replicate (gen_length gen - d) fi\<rparr>))"
proof -
  let ?its = "iterators gen"
  let ?j = "carry_stop ?its d"
  from d len have dl: "d \<le> length ?its" by simp
  note loop = advance_loop_char [OF fi nn dl]
  from carry_stop_bounds [OF dl] have b: "d \<le> ?j" "?j \<le> length ?its" by simp_all
  show ?thesis
  proof (cases "?j < length ?its")
    case False
    with loop len show ?thesis by (simp add: advance_chain_generator_def)
  next
    case True
    let ?res = "take d ?its @ replicate (?j - d) fi @ tl (?its ! ?j) # drop (Suc ?j) ?its"
    have l: "d \<le> length ?res" using dl by simp
    have "reset_loop fi ?res d 0 = Inr (take 0 ?res @ replicate (d - 0) fi @ drop d ?res)"
      by (rule reset_loop_char [OF _ l]) simp
    moreover have "drop d ?res = replicate (?j - d) fi @ tl (?its ! ?j) # drop (Suc ?j) ?its"
      using dl by simp
    moreover have "replicate d fi @ replicate (?j - d) fi = replicate ?j fi"
      using b(1) by (simp add: replicate_add [symmetric])
    ultimately have "reset_loop fi ?res d 0 =
        Inr (replicate ?j fi @ tl (?its ! ?j) # drop (Suc ?j) ?its)"
      by simp
    with True loop len show ?thesis by (simp add: advance_chain_generator_def)
  qed
qed

lemma valid_cursor_drop: "d < length fi \<Longrightarrow> valid_cursor fi (drop d fi)"
  by (simp add: valid_cursor_def)

lemma valid_cursor_digit:
  "valid_cursor fi it \<Longrightarrow> length fi - length it < length fi \<and> drop (length fi - length it) fi = it"
  by (cases it) (auto simp: valid_cursor_def)

lemma valid_iterators_no_null: "valid_iterators fi its \<Longrightarrow> no_null_cursor its"
  by (auto simp: valid_iterators_def no_null_cursor_def valid_cursor_def list_all_iff)

lemma valid_iterators_append:
  "valid_iterators fi (xs @ ys) \<longleftrightarrow> valid_iterators fi xs \<and> valid_iterators fi ys"
  by (simp add: valid_iterators_def)

lemma valid_iterators_Cons:
  "valid_iterators fi (x # xs) \<longleftrightarrow> valid_cursor fi x \<and> valid_iterators fi xs"
  by (simp add: valid_iterators_def)

lemma valid_iterators_replicate: "fi \<noteq> [] \<Longrightarrow> valid_iterators fi (replicate n fi)"
  by (simp add: valid_iterators_def valid_cursor_def list_all_iff)

lemma valid_iterators_drop: "valid_iterators fi its \<Longrightarrow> valid_iterators fi (drop d its)"
  by (auto simp: valid_iterators_def list_all_iff dest: in_set_dropD)

lemma valid_iterators_take: "valid_iterators fi its \<Longrightarrow> valid_iterators fi (take d its)"
  by (auto simp: valid_iterators_def list_all_iff dest: in_set_takeD)

lemma valid_iterators_nth: "valid_iterators fi its \<Longrightarrow> i < length its \<Longrightarrow> valid_cursor fi (its ! i)"
  by (simp add: valid_iterators_def list_all_length)

lemma length_chain_of_rank [simp]: "length (chain_of_rank fi n r) = n"
  by (induction n arbitrary: r) auto

lemma valid_chain_of_rank: "fi \<noteq> [] \<Longrightarrow> valid_iterators fi (chain_of_rank fi n r)"
  by (induction n arbitrary: r) (auto simp: valid_iterators_Cons valid_iterators_def intro: valid_cursor_drop)

lemma chain_rank_of_rank: "fi \<noteq> [] \<Longrightarrow> r < length fi ^ n \<Longrightarrow> chain_rank fi (chain_of_rank fi n r) = r"
proof (induction n arbitrary: r)
  case 0
  then show ?case by simp
next
  case (Suc n)
  let ?k = "length fi"
  from Suc.prems have k: "0 < ?k" by simp
  from Suc.prems have "r div ?k < ?k ^ n"
    by (simp add: less_mult_imp_div_less mult.commute)
  with Suc have "chain_rank fi (chain_of_rank fi n (r div ?k)) = r div ?k" by simp
  moreover have "?k - (?k - r mod ?k) = r mod ?k" using k by (simp add: less_imp_le)
  ultimately show ?case by simp
qed

lemma chain_of_rank_rank: "valid_iterators fi its \<Longrightarrow> chain_of_rank fi (length its) (chain_rank fi its) = its"
proof (induction its)
  case Nil
  then show ?case by simp
next
  case (Cons it its)
  let ?k = "length fi"
  from Cons.prems have v: "valid_cursor fi it" and vs: "valid_iterators fi its"
    by (simp_all add: valid_iterators_Cons)
  from valid_cursor_digit [OF v] have d: "?k - length it < ?k" "drop (?k - length it) fi = it"
    by simp_all
  from d(1) have k: "?k \<noteq> 0" by (cases fi) simp_all
  have "(?k - length it + ?k * chain_rank fi its) mod ?k = ?k - length it" using d(1) by simp
  moreover have "(?k - length it + ?k * chain_rank fi its) div ?k = chain_rank fi its"
    using d(1) k by simp
  ultimately show ?case using Cons.IH [OF vs] d(2) by simp
qed

lemma chain_rank_bound: "valid_iterators fi its \<Longrightarrow> chain_rank fi its < length fi ^ length its"
proof (induction its)
  case Nil
  then show ?case by simp
next
  case (Cons it its)
  let ?k = "length fi"
  from Cons.prems have v: "valid_cursor fi it" and vs: "valid_iterators fi its"
    by (simp_all add: valid_iterators_Cons)
  from valid_cursor_digit [OF v] have d: "?k - length it < ?k" by simp
  from Cons.IH [OF vs] have "Suc (chain_rank fi its) \<le> ?k ^ length its" by simp
  then have "?k * Suc (chain_rank fi its) \<le> ?k * ?k ^ length its" by (rule mult_le_mono2)
  with d show ?case by simp
qed

lemma chain_rank_append:
  "chain_rank fi (xs @ ys) = chain_rank fi xs + length fi ^ length xs * chain_rank fi ys"
  by (induction xs) (simp_all add: algebra_simps)

lemma chain_rank_replicate [simp]: "chain_rank fi (replicate n fi) = 0"
  by (induction n) simp_all

lemma at_last_digit:
  "valid_cursor fi it \<Longrightarrow> at_last_entry it \<Longrightarrow> length fi - length it = length fi - 1"
  by (cases it) (auto simp: valid_cursor_def at_last_entry_def)

lemma chain_rank_all_last:
  "valid_iterators fi ws \<Longrightarrow> \<forall>c \<in> set ws. at_last_entry c \<Longrightarrow> fi \<noteq> [] \<Longrightarrow>
   Suc (chain_rank fi ws) = length fi ^ length ws"
proof (induction ws)
  case Nil
  then show ?case by simp
next
  case (Cons c ws)
  let ?k = "length fi"
  from Cons.prems have v: "valid_cursor fi c" and vs: "valid_iterators fi ws"
    by (simp_all add: valid_iterators_Cons)
  from Cons.prems have k: "0 < ?k" by simp
  from at_last_digit [OF v] Cons.prems(2) have dg: "?k - length c = ?k - 1" by simp
  from Cons.IH [OF vs] Cons.prems have ih: "Suc (chain_rank fi ws) = ?k ^ length ws" by simp
  have "Suc (chain_rank fi (c # ws)) = Suc (?k - 1) + ?k * chain_rank fi ws"
    using dg by simp
  also have "\<dots> = ?k * Suc (chain_rank fi ws)" using k by simp
  also have "\<dots> = ?k ^ length (c # ws)" using ih by simp
  finally show ?case .
qed

lemma valid_cursor_tl:
  "valid_cursor fi it \<Longrightarrow> \<not> at_last_entry it \<Longrightarrow>
   valid_cursor fi (tl it) \<and> length fi - length (tl it) = Suc (length fi - length it)"
proof -
  assume v: "valid_cursor fi it" and nl: "\<not> at_last_entry it"
  then obtain p nxt where it: "it = p # nxt" "nxt \<noteq> []"
    by (cases it) (auto simp: valid_cursor_def at_last_entry_def)
  from v it have le: "Suc (length nxt) \<le> length fi"
    and dr: "drop (length fi - Suc (length nxt)) fi = p # nxt"
    by (simp_all add: valid_cursor_def)
  have "length fi - length nxt = Suc (length fi - Suc (length nxt))" using le by arith
  then have "drop (length fi - length nxt) fi = drop 1 (drop (length fi - Suc (length nxt)) fi)"
    by simp
  also have "\<dots> = nxt" using dr by simp
  finally have "drop (length fi - length nxt) fi = nxt" .
  with it le show ?thesis by (simp add: valid_cursor_def)
qed

lemma drop_at_carry_stop:
  assumes "d \<le> length its"
  shows "drop d its = takeWhile at_last_entry (drop d its) @ drop (carry_stop its d) its"
proof -
  have "drop d its = takeWhile at_last_entry (drop d its) @ dropWhile at_last_entry (drop d its)"
    by simp
  also have "dropWhile at_last_entry (drop d its) =
      drop (length (takeWhile at_last_entry (drop d its))) (drop d its)"
    by (rule dropWhile_eq_drop)
  also have "\<dots> = drop (carry_stop its d) its"
    by (simp add: carry_stop_def add.commute)
  finally show ?thesis .
qed

lemma chain_rank_high_part:
  assumes "valid_iterators fi its" and "d \<le> length its"
  shows "chain_rank fi its div length fi ^ d = chain_rank fi (drop d its)"
proof -
  let ?k = "length fi"
  have "valid_iterators fi (take d its)" using assms(1) by (rule valid_iterators_take)
  then have "chain_rank fi (take d its) < ?k ^ length (take d its)" by (rule chain_rank_bound)
  moreover have "length (take d its) = d" using assms(2) by simp
  ultimately have low: "chain_rank fi (take d its) < ?k ^ d" by simp
  have "chain_rank fi its = chain_rank fi (take d its @ drop d its)" by simp
  also have "\<dots> = chain_rank fi (take d its) + ?k ^ d * chain_rank fi (drop d its)"
    using \<open>length (take d its) = d\<close> by (simp only: chain_rank_append)
  finally have "chain_rank fi its = chain_rank fi (take d its) + ?k ^ d * chain_rank fi (drop d its)" .
  moreover from low have "?k ^ d \<noteq> 0" by (cases "?k ^ d") simp_all
  ultimately show ?thesis using low by simp
qed

lemma advance_success_rank:
  assumes fi: "fi \<noteq> []" and v: "valid_iterators fi its" and d: "d \<le> length its"
    and j: "carry_stop its d < length its"
  defines "res \<equiv> replicate (carry_stop its d) fi @ tl (its ! carry_stop its d) #
                    drop (Suc (carry_stop its d)) its"
  shows "valid_iterators fi res \<and> length res = length its \<and>
         chain_rank fi res = length fi ^ d * Suc (chain_rank fi (drop d its))"
proof -
  let ?k = "length fi"
  let ?j = "carry_stop its d"
  let ?ws = "takeWhile at_last_entry (drop d its)"
  let ?c = "its ! ?j"
  let ?rest = "drop (Suc ?j) its"
  from carry_stop_bounds [OF d] have b: "d \<le> ?j" by simp
  have lw: "length ?ws = ?j - d" by (simp add: carry_stop_def)
  have vc: "valid_cursor fi ?c" using v j by (rule valid_iterators_nth)
  have nl: "\<not> at_last_entry ?c" using j by (rule carry_stop_not_last)
  from valid_cursor_tl [OF vc nl] have vt: "valid_cursor fi (tl ?c)"
    and dt: "?k - length (tl ?c) = Suc (?k - length ?c)" by simp_all
  have vr: "valid_iterators fi ?rest" using v by (rule valid_iterators_drop)
  have vres: "valid_iterators fi res"
    using fi vt vr by (simp add: res_def valid_iterators_append valid_iterators_Cons
        valid_iterators_replicate)
  have lres: "length res = length its" using j by (simp add: res_def)
  have split: "drop d its = ?ws @ ?c # ?rest"
    using drop_at_carry_stop [OF d] j by (simp add: Cons_nth_drop_Suc)
  have vws: "valid_iterators fi ?ws"
    using valid_iterators_drop [OF v, of d] split
    by (metis valid_iterators_append)
  have "\<forall>c \<in> set ?ws. at_last_entry c" by (auto dest: set_takeWhileD)
  with vws fi have ws: "Suc (chain_rank fi ?ws) = ?k ^ (?j - d)"
    using chain_rank_all_last [of fi ?ws] lw by simp
  have hi: "Suc (chain_rank fi (drop d its)) =
      ?k ^ (?j - d) * (Suc (?k - length ?c) + ?k * chain_rank fi ?rest)"
  proof -
    have "chain_rank fi (drop d its) =
        chain_rank fi ?ws + ?k ^ (?j - d) * (?k - length ?c + ?k * chain_rank fi ?rest)"
      by (subst split) (simp add: chain_rank_append lw)
    then have "Suc (chain_rank fi (drop d its)) =
        Suc (chain_rank fi ?ws) + ?k ^ (?j - d) * (?k - length ?c + ?k * chain_rank fi ?rest)"
      by simp
    also have "\<dots> = ?k ^ (?j - d) * (Suc (?k - length ?c) + ?k * chain_rank fi ?rest)"
      by (simp add: ws algebra_simps)
    finally show ?thesis .
  qed
  have "chain_rank fi (tl ?c # ?rest) = Suc (?k - length ?c) + ?k * chain_rank fi ?rest"
    by (simp only: chain_rank.simps dt)
  then have "chain_rank fi res = ?k ^ ?j * (Suc (?k - length ?c) + ?k * chain_rank fi ?rest)"
    by (simp add: res_def chain_rank_append del: chain_rank.simps)
  moreover have "?k ^ ?j = ?k ^ d * ?k ^ (?j - d)"
    using b by (simp add: power_add [symmetric])
  ultimately have "chain_rank fi res =
      ?k ^ d * (?k ^ (?j - d) * (Suc (?k - length ?c) + ?k * chain_rank fi ?rest))"
    by (simp only: mult.assoc)
  then have "chain_rank fi res = ?k ^ d * Suc (chain_rank fi (drop d its))"
    by (simp only: hi)
  with vres lres show ?thesis by simp
qed

lemma advance_exhausted_rank:
  assumes fi: "fi \<noteq> []" and v: "valid_iterators fi its" and d: "d \<le> length its"
    and j: "\<not> carry_stop its d < length its"
  shows "Suc (chain_rank fi (drop d its)) = length fi ^ (length its - d)"
proof -
  let ?ws = "takeWhile at_last_entry (drop d its)"
  from carry_stop_bounds [OF d] j have e: "carry_stop its d = length its" by simp
  with drop_at_carry_stop [OF d] have all: "drop d its = ?ws" by simp
  have "valid_iterators fi ?ws" using valid_iterators_drop [OF v, of d] all by simp
  moreover have "\<forall>c \<in> set ?ws. at_last_entry c" by (auto dest: set_takeWhileD)
  ultimately have "Suc (chain_rank fi ?ws) = length fi ^ length ?ws"
    using fi by (rule chain_rank_all_last)
  moreover have "length ?ws = length its - d" using e by (simp add: carry_stop_def)
  ultimately show ?thesis using all by simp
qed

lemma advance_by_rank:
  assumes fi: "fi \<noteq> []" and v: "valid_iterators fi (iterators gen)"
    and len: "gen_length gen = length (iterators gen)" and d: "d \<le> gen_length gen"
  shows "advance_chain_generator gen fi d =
     Inr (if (chain_rank fi (iterators gen) div length fi ^ d + 1) * length fi ^ d
               < length fi ^ gen_length gen
          then (True, gen\<lparr>iterators := chain_of_rank fi (gen_length gen)
                  ((chain_rank fi (iterators gen) div length fi ^ d + 1) * length fi ^ d)\<rparr>)
          else (False, gen\<lparr>iterators :=
                  take d (iterators gen) @ replicate (gen_length gen - d) fi\<rparr>))"
proof -
  let ?its = "iterators gen"
  let ?k = "length fi"
  let ?j = "carry_stop ?its d"
  let ?r' = "(chain_rank fi ?its div ?k ^ d + 1) * ?k ^ d"
  from d len have dl: "d \<le> length ?its" by simp
  have hi: "chain_rank fi ?its div ?k ^ d = chain_rank fi (drop d ?its)"
    using v dl by (rule chain_rank_high_part)
  note char = advance_chain_generator_char [OF fi valid_iterators_no_null [OF v] len d]
  show ?thesis
  proof (cases "?j < length ?its")
    case True
    let ?res = "replicate ?j fi @ tl (?its ! ?j) # drop (Suc ?j) ?its"
    note sr = advance_success_rank [OF fi v dl True]
    from sr have vres: "valid_iterators fi ?res" by (rule conjunct1)
    from sr have lres: "length ?res = length ?its" by (rule conjunct2 [THEN conjunct1])
    from sr have rres: "chain_rank fi ?res = ?k ^ d * Suc (chain_rank fi (drop d ?its))"
      by (rule conjunct2 [THEN conjunct2])
    from rres hi have r': "chain_rank fi ?res = ?r'" by (simp add: mult.commute)
    have "chain_rank fi ?res < ?k ^ length ?res" using vres by (rule chain_rank_bound)
    then have lt: "?r' < ?k ^ gen_length gen" unfolding r' lres len [symmetric] .
    have "chain_of_rank fi (length ?res) (chain_rank fi ?res) = ?res"
      using vres by (rule chain_of_rank_rank)
    then have unr: "chain_of_rank fi (gen_length gen) ?r' = ?res"
      unfolding r' lres len [symmetric] .
    have "advance_chain_generator gen fi d = Inr (True, gen\<lparr>iterators := ?res\<rparr>)"
      using char True len by simp
    then show ?thesis by (simp only: unr lt if_True)
  next
    case False
    from advance_exhausted_rank [OF fi v dl False] hi
    have "Suc (chain_rank fi ?its div ?k ^ d) = ?k ^ (length ?its - d)" by simp
    then have "?r' = ?k ^ (length ?its - d) * ?k ^ d" by simp
    also have "\<dots> = ?k ^ length ?its" using dl by (simp add: power_add [symmetric])
    finally have "\<not> ?r' < ?k ^ gen_length gen" using len by simp
    with char False len show ?thesis by simp
  qed
qed

lemma chain_fully_valid_iff:
  "chain_fully_valid h ci a b chain \<longleftrightarrow>
     (\<forall>i \<le> length chain. boundary_intersects h ci a b chain i) \<and>
     (\<forall>d. Suc d < length chain \<longrightarrow> \<not> adjacent_duplicate chain d)"
  by (auto simp: chain_fully_valid_def list_all_iff less_Suc_eq_le)

lemma chain_entry_same_tail:
  assumes "drop d c' = drop d c" and "length c' = length c" and "d \<le> i" and "i < length c"
  shows "chain_entry c' i = chain_entry c i"
proof -
  have "c' ! i = drop d c' ! (i - d)" using assms(2-4) by simp
  also have "\<dots> = drop d c ! (i - d)" by (simp only: assms(1))
  also have "\<dots> = c ! i" using assms(3,4) by simp
  finally show ?thesis by (simp add: chain_entry_def)
qed

lemma boundary_same_tail:
  assumes "drop d c' = drop d c" and "length c' = length c" and "i \<le> length c" and "d \<le> i - 1"
  shows "boundary_intersects h ci a b c' i = boundary_intersects h ci a b c i"
proof -
  have up: "chain_entry c' (i - 1) = chain_entry c (i - 1)" if "i \<noteq> 0"
    using that assms by (intro chain_entry_same_tail [of d]) simp_all
  have down: "chain_entry c' i = chain_entry c i" if "i \<noteq> length c"
    using that assms by (intro chain_entry_same_tail [of d]) simp_all
  have A: "(if i = 0 then a else src_caps (h (chain_entry c' (i - 1)))) =
           (if i = 0 then a else src_caps (h (chain_entry c (i - 1))))"
    using up by (cases "i = 0") simp_all
  have B: "(if i = length c' then b else sink_caps (h (chain_entry c' i))) =
           (if i = length c then b else sink_caps (h (chain_entry c i)))"
    using down assms(2) by (cases "i = length c") simp_all
  show ?thesis by (simp only: boundary_intersects_def A B)
qed

lemma duplicate_same_tail:
  assumes "drop d c' = drop d c" and "length c' = length c" and "Suc i < length c" and "d \<le> i"
  shows "adjacent_duplicate c' i = adjacent_duplicate c i"
proof -
  have "chain_entry c' i = chain_entry c i"
    using assms by (intro chain_entry_same_tail [of d]) simp_all
  moreover have "chain_entry c' (Suc i) = chain_entry c (Suc i)"
    using assms by (intro chain_entry_same_tail [of d]) simp_all
  ultimately show ?thesis by (simp add: adjacent_duplicate_def)
qed

lemma validate_chain_contract:
  assumes nn: "no_null_cursor c" and len: "length c < 2 ^ 31"
  shows "\<exists>v. gst_auto_convert2_validate_chain h ci a b c (length c) = Inr v \<and>
           (v < 0 \<longleftrightarrow> chain_fully_valid h ci a b c) \<and>
           (0 \<le> v \<longrightarrow> pruning_depth v \<le> length c \<and>
              (\<forall>c'. length c' = length c \<and> drop (pruning_depth v) c' = drop (pruning_depth v) c
                  \<longrightarrow> \<not> chain_fully_valid h ci a b c'))"
proof (cases "length c = 0")
  case True
  then have c: "c = []" by simp
  show ?thesis
    unfolding c by (simp add: validate_chain_length_zero chain_fully_valid_iff
        boundary_intersects_def pruning_depth_def)
next
  case False
  then have pos: "1 \<le> length c" by (cases c) simp_all
  from validate_chain_caps_result [OF nn len, of h ci a b]
  obtain dc where dc:
    "validate_chain_caps h ci a b c (length c) = Inr dc"
    "- 1 \<le> dc" "dc \<le> int (length c)"
    "0 \<le> dc \<longrightarrow> \<not> boundary_intersects h ci a b c (nat dc)"
    "\<forall>j. dc < int j \<and> j \<le> length c \<longrightarrow> boundary_intersects h ci a b c j"
    by blast
  from validate_non_consecutive_result [OF nn pos len, of a b]
  obtain dn where dn:
    "validate_non_consecutive_elements a b c (length c) = Inr dn"
    "- 1 \<le> dn" "dn \<le> int (length c) - 2"
    "0 \<le> dn \<longrightarrow> adjacent_duplicate c (nat dn)"
    "\<forall>j. dn < int j \<and> Suc j < length c \<longrightarrow> \<not> adjacent_duplicate c j"
    by blast
  have pipe: "gst_auto_convert2_validate_chain h ci a b c (length c) =
      Inr (if dc \<noteq> - 1 then dc else dn)"
    by (simp add: validate_chain_pipeline dc(1) dn(1))
  show ?thesis
  proof (cases "dc = - 1")
    case False
    with dc(2) have dc0: "0 \<le> dc" by simp
    with dc(4) have bad: "\<not> boundary_intersects h ci a b c (nat dc)" by simp
    from dc0 dc(3) have le: "nat dc \<le> length c" by simp
    from bad le have nv: "\<not> chain_fully_valid h ci a b c"
      by (auto simp: chain_fully_valid_iff)
    have pd: "pruning_depth dc = nat dc - 1"
      using dc0 by (auto simp: pruning_depth_def nat_diff_distrib)
    have "\<not> chain_fully_valid h ci a b c'"
      if "length c' = length c" "drop (pruning_depth dc) c' = drop (pruning_depth dc) c" for c'
    proof -
      have "boundary_intersects h ci a b c' (nat dc) = boundary_intersects h ci a b c (nat dc)"
        using that(2,1) le by (rule boundary_same_tail) (simp add: pd)
      with bad le that(1) show ?thesis by (auto simp: chain_fully_valid_iff)
    qed
    moreover have "pruning_depth dc \<le> length c" using pd le by simp
    ultimately show ?thesis using pipe False dc0 nv by auto
  next
    case True
    with dc(5) have allb: "\<forall>i \<le> length c. boundary_intersects h ci a b c i" by simp
    show ?thesis
    proof (cases "dn = - 1")
      case True
      with dn(5) have "\<forall>d. Suc d < length c \<longrightarrow> \<not> adjacent_duplicate c d" by simp
      with allb have "chain_fully_valid h ci a b c" by (simp add: chain_fully_valid_iff)
      with pipe True \<open>dc = - 1\<close> show ?thesis by simp
    next
      case False
      with dn(2) have dn0: "0 \<le> dn" by simp
      with dn(4) have dup: "adjacent_duplicate c (nat dn)" by simp
      from dn0 dn(3) have lt: "Suc (nat dn) < length c" by simp
      from dup lt have nv: "\<not> chain_fully_valid h ci a b c"
        by (auto simp: chain_fully_valid_iff)
      have pd: "pruning_depth dn \<le> nat dn"
        using dn0 by (auto simp: pruning_depth_def)
      have "\<not> chain_fully_valid h ci a b c'"
        if "length c' = length c" "drop (pruning_depth dn) c' = drop (pruning_depth dn) c" for c'
      proof -
        have "adjacent_duplicate c' (nat dn) = adjacent_duplicate c (nat dn)"
          using that(2,1) lt pd by (rule duplicate_same_tail)
        with dup lt that(1) show ?thesis by (auto simp: chain_fully_valid_iff)
      qed
      moreover have "pruning_depth dn \<le> length c" using pd lt by simp
      ultimately show ?thesis using pipe \<open>dc = - 1\<close> False dn0 nv by auto
    qed
  qed
qed

lemma advance_depth_zero:
  assumes fi: "fi \<noteq> []" and v: "valid_iterators fi (iterators gen)"
    and len: "gen_length gen = length (iterators gen)"
  shows "advance_chain_generator gen fi 0 =
     Inr (if Suc (chain_rank fi (iterators gen)) < length fi ^ gen_length gen
          then (True, gen\<lparr>iterators := chain_of_rank fi (gen_length gen)
                  (Suc (chain_rank fi (iterators gen)))\<rparr>)
          else (False, gen\<lparr>iterators := replicate (gen_length gen) fi\<rparr>))"
  using advance_by_rank [OF fi v len, of 0] by simp

lemma visited_chains_from_rank:
  assumes fi: "fi \<noteq> []"
  shows "valid_iterators fi (iterators gen) \<Longrightarrow> gen_length gen = length (iterators gen) \<Longrightarrow>
    length fi ^ gen_length gen - chain_rank fi (iterators gen) \<le> n \<Longrightarrow>
    visited_chains n gen fi 0 =
      Some (map (chain_of_rank fi (gen_length gen))
              [chain_rank fi (iterators gen)..<length fi ^ gen_length gen])"
proof (induction n arbitrary: gen)
  case 0
  from chain_rank_bound [OF 0(1)] 0(2,3) show ?case by simp
next
  case (Suc n)
  let ?its = "iterators gen"
  let ?N = "gen_length gen"
  let ?r = "chain_rank fi ?its"
  let ?M = "length fi ^ ?N"
  from chain_rank_bound [OF Suc.prems(1)] Suc.prems(2) have lt: "?r < ?M" by simp
  have cur: "chain_of_rank fi ?N ?r = ?its"
    using chain_of_rank_rank [OF Suc.prems(1)] Suc.prems(2) by simp
  note adv = advance_depth_zero [OF fi Suc.prems(1,2)]
  show ?case
  proof (cases "Suc ?r < ?M")
    case False
    with lt have "[?r..<?M] = [?r]" by (simp add: upt_conv_Cons)
    with False adv cur show ?thesis by simp
  next
    case True
    let ?gen = "gen\<lparr>iterators := chain_of_rank fi ?N (Suc ?r)\<rparr>"
    have v': "valid_iterators fi (iterators ?gen)" using fi by (simp add: valid_chain_of_rank)
    have l': "gen_length ?gen = length (iterators ?gen)" by simp
    have r': "chain_rank fi (iterators ?gen) = Suc ?r"
      using fi True by (simp add: chain_rank_of_rank)
    have n': "length fi ^ gen_length ?gen - chain_rank fi (iterators ?gen) \<le> n"
      using Suc.prems(3) r' by simp
    from Suc.IH [OF v' l' n'] r'
    have "visited_chains n ?gen fi 0 = Some (map (chain_of_rank fi ?N) [Suc ?r..<?M])"
      by simp
    moreover have "[?r..<?M] = ?r # [Suc ?r..<?M]" using lt by (rule upt_conv_Cons)
    ultimately show ?thesis using True adv cur by simp
  qed
qed

lemma init_chain_generator_valid:
  "fi \<noteq> [] \<Longrightarrow> valid_iterators fi (iterators (init_chain_generator fi route n))"
  by (simp add: init_chain_generator_def valid_iterators_replicate)

lemma init_chain_generator_rank [simp]:
  "chain_rank fi (iterators (init_chain_generator fi route n)) = 0"
  by (simp add: init_chain_generator_def)

lemma init_chain_generator_length [simp]:
  "gen_length (init_chain_generator fi route n) = n"
  "length (iterators (init_chain_generator fi route n)) = n"
  by (simp_all add: init_chain_generator_def)

lemma distinct_all_chains: "fi \<noteq> [] \<Longrightarrow> distinct (all_chains fi n)"
proof -
  assume fi: "fi \<noteq> []"
  have "inj_on (chain_of_rank fi n) {0..<length fi ^ n}"
    by (rule inj_on_inverseI [where g = "chain_rank fi"]) (simp add: fi chain_rank_of_rank)
  then show ?thesis by (simp add: all_chains_def distinct_map)
qed

lemma set_all_chains:
  assumes fi: "fi \<noteq> []"
  shows "set (all_chains fi n) = {its. length its = n \<and> valid_iterators fi its}"
proof (intro set_eqI iffI)
  fix its assume "its \<in> set (all_chains fi n)"
  then show "its \<in> {its. length its = n \<and> valid_iterators fi its}"
    using fi by (auto simp: all_chains_def valid_chain_of_rank)
next
  fix its assume "its \<in> {its. length its = n \<and> valid_iterators fi its}"
  then have l: "length its = n" and v: "valid_iterators fi its" by simp_all
  from chain_rank_bound [OF v] l have "chain_rank fi its \<in> set [0..<length fi ^ n]" by simp
  moreover from chain_of_rank_rank [OF v] l have "chain_of_rank fi n (chain_rank fi its) = its"
    by simp
  ultimately show "its \<in> set (all_chains fi n)"
    unfolding all_chains_def set_map by (metis imageI)
qed

lemma visited_chains_depth_zero:
  assumes fi: "fi \<noteq> []"
  shows "visited_chains (length fi ^ n) (init_chain_generator fi route n) fi 0 =
         Some (all_chains fi n)"
  using visited_chains_from_rank [OF fi init_chain_generator_valid [OF fi, of route n],
      of "length fi ^ n"]
  by (simp add: all_chains_def)

lemma generate_loop_init:
  "init gen \<Longrightarrow> generate_next_chain_loop (Suc n) vc fi gen depth =
     validate_and_continue n vc fi (gen\<lparr>init := False\<rparr>)"
  by (simp add: generate_next_chain_loop.simps validate_and_continue_def)

lemma generate_loop_advance:
  "\<not> init gen \<Longrightarrow> generate_next_chain_loop (Suc n) vc fi gen depth =
     (case advance_chain_generator gen fi (nat depth) of
        Inl e \<Rightarrow> Some (Inl e)
      | Inr (False, gen') \<Rightarrow> Some (Inr (False, gen'))
      | Inr (True, gen') \<Rightarrow> validate_and_continue n vc fi gen')"
  by (simp add: generate_next_chain_loop.simps validate_and_continue_def
      split: sum.splits prod.splits bool.splits)

lemma rank_after_advance_greater:
  fixes r m :: nat
  assumes "0 < m"
  shows "r < (r div m + 1) * m"
  using dividend_less_div_times [OF assms, of r] by (simp add: algebra_simps)

lemma validate_and_continue_cases:
  assumes nn: "valid_iterators fi (iterators gen')" and len: "gen_length gen' = length (iterators gen')"
    and small: "gen_length gen' < 2 ^ 31"
  obtains (accepted) "chain_fully_valid h ci (gen_sink_caps gen') (gen_src_caps gen') (iterators gen')"
      "validate_and_continue n (gst_auto_convert2_validate_chain h ci) fi gen' =
         Some (Inr (True, gen'))"
  | (rejected) v where "0 \<le> v" "pruning_depth v \<le> gen_length gen'"
      "\<forall>c'. length c' = gen_length gen' \<and>
            drop (pruning_depth v) c' = drop (pruning_depth v) (iterators gen') \<longrightarrow>
            \<not> chain_fully_valid h ci (gen_sink_caps gen') (gen_src_caps gen') c'"
      "validate_and_continue n (gst_auto_convert2_validate_chain h ci) fi gen' =
         generate_next_chain_loop n (gst_auto_convert2_validate_chain h ci) fi gen'
           (int (pruning_depth v))"
proof -
  let ?a = "gen_sink_caps gen'" and ?b = "gen_src_caps gen'" and ?c = "iterators gen'"
  from small len have l: "length ?c < 2 ^ 31" by simp
  from validate_chain_contract [OF valid_iterators_no_null [OF nn] l, of h ci ?a ?b]
  obtain v where v:
    "gst_auto_convert2_validate_chain h ci ?a ?b ?c (length ?c) = Inr v"
    "v < 0 \<longleftrightarrow> chain_fully_valid h ci ?a ?b ?c"
    "0 \<le> v \<longrightarrow> pruning_depth v \<le> length ?c \<and>
       (\<forall>c'. length c' = length ?c \<and> drop (pruning_depth v) c' = drop (pruning_depth v) ?c
           \<longrightarrow> \<not> chain_fully_valid h ci ?a ?b c')"
    by blast
  show thesis
  proof (cases "v < 0")
    case True
    with v(1,2) len show thesis
      by (intro accepted) (simp_all add: validate_and_continue_def)
  next
    case False
    then have v0: "0 \<le> v" by simp
    have "int (pruning_depth v) = (if v > 0 then v - 1 else v)"
      using v0 by (simp add: pruning_depth_def)
    with False v(1) len have "validate_and_continue n (gst_auto_convert2_validate_chain h ci) fi gen' =
         generate_next_chain_loop n (gst_auto_convert2_validate_chain h ci) fi gen'
           (int (pruning_depth v))"
      by (simp add: validate_and_continue_def)
    with v0 v(3) len show thesis by (intro rejected [of v]) simp_all
  qed
qed


lemma drop_chain_of_rank:
  "d \<le> n \<Longrightarrow> drop d (chain_of_rank fi n s) = chain_of_rank fi (n - d) (s div length fi ^ d)"
proof (induction d arbitrary: n s)
  case 0
  then show ?case by simp
next
  case (Suc d)
  then obtain m where n: "n = Suc m" by (cases n) simp_all
  with Suc.prems have "d \<le> m" by simp
  from Suc.IH [OF this, of "s div length fi"] n show ?case
    by (simp add: div_mult2_eq)
qed

lemma same_high_part:
  fixes r s m :: nat
  assumes "0 < m" "r \<le> s" "s < (r div m + 1) * m"
  shows "s div m = r div m"
proof -
  from assms(2) have "r div m \<le> s div m" by (rule div_le_mono)
  moreover from assms(3) have "s div m < r div m + 1" by (rule less_mult_imp_div_less)
  ultimately show ?thesis by simp
qed

lemma find_skip_rejected: "\<forall>x \<in> set xs. \<not> P x \<Longrightarrow> find P (xs @ ys) = find P ys"
  by (induction xs) simp_all

lemma same_high_part_same_tail:
  assumes fi: "fi \<noteq> []" and v: "valid_iterators fi its" and d: "d \<le> length its"
    and s: "chain_rank fi its \<le> s"
      "s < (chain_rank fi its div length fi ^ d + 1) * length fi ^ d"
  shows "drop d (chain_of_rank fi (length its) s) = drop d its"
proof -
  have "0 < length fi ^ d" using fi by simp
  from same_high_part [OF this s]
  have "drop d (chain_of_rank fi (length its) s) =
        drop d (chain_of_rank fi (length its) (chain_rank fi its))"
    using d by (simp add: drop_chain_of_rank)
  then show ?thesis using chain_of_rank_rank [OF v] by simp
qed

lemma validate_step_refines:
  assumes fi: "fi \<noteq> []" and v: "valid_iterators fi (iterators g)"
    and len: "gen_length g = length (iterators g)" and small: "gen_length g < 2 ^ 31"
    and ih: "\<And>d. d \<le> gen_length g \<Longrightarrow>
       (\<forall>s. chain_rank fi (iterators g) \<le> s \<and>
            s < (chain_rank fi (iterators g) div length fi ^ d + 1) * length fi ^ d \<and>
            s < length fi ^ gen_length g \<longrightarrow>
            \<not> chain_fully_valid h ci (gen_sink_caps g) (gen_src_caps g)
                (chain_of_rank fi (gen_length g) s)) \<Longrightarrow>
       search_outcome (generate_next_chain_loop n (gst_auto_convert2_validate_chain h ci) fi g
          (int d)) =
       Some (Inr (find (chain_fully_valid h ci (gen_sink_caps g) (gen_src_caps g))
          (map (chain_of_rank fi (gen_length g))
             [chain_rank fi (iterators g)..<length fi ^ gen_length g])))"
  shows "search_outcome (validate_and_continue n (gst_auto_convert2_validate_chain h ci) fi g) =
       Some (Inr (find (chain_fully_valid h ci (gen_sink_caps g) (gen_src_caps g))
          (map (chain_of_rank fi (gen_length g))
             [chain_rank fi (iterators g)..<length fi ^ gen_length g])))"
  using v len small
proof (cases rule: validate_and_continue_cases [where h = h and ci = ci and n = n and fi = fi])
  case accepted
  let ?r = "chain_rank fi (iterators g)"
  from chain_rank_bound [OF v] len have "?r < length fi ^ gen_length g" by simp
  then have "[?r..<length fi ^ gen_length g] = ?r # [Suc ?r..<length fi ^ gen_length g]"
    by (rule upt_conv_Cons)
  moreover have "chain_of_rank fi (gen_length g) ?r = iterators g"
    using chain_of_rank_rank [OF v] len by simp
  ultimately show ?thesis using accepted by (simp add: search_outcome_def)
next
  case (rejected d)
  have "\<not> chain_fully_valid h ci (gen_sink_caps g) (gen_src_caps g)
           (chain_of_rank fi (gen_length g) s)"
    if "chain_rank fi (iterators g) \<le> s"
      "s < (chain_rank fi (iterators g) div length fi ^ pruning_depth d + 1) *
           length fi ^ pruning_depth d" for s
  proof -
    from rejected(2) len have dl: "pruning_depth d \<le> length (iterators g)" by simp
    from same_high_part_same_tail [OF fi v dl that] len
    have "drop (pruning_depth d) (chain_of_rank fi (gen_length g) s) =
          drop (pruning_depth d) (iterators g)" by simp
    with rejected(3) show ?thesis by simp
  qed
  with ih [OF rejected(2)] show ?thesis unfolding rejected(4) by blast
qed

lemma generate_loop_refines_advance:
  assumes fi: "fi \<noteq> []"
  shows "valid_iterators fi (iterators gen) \<Longrightarrow> gen_length gen = length (iterators gen) \<Longrightarrow>
    gen_length gen < 2 ^ 31 \<Longrightarrow> \<not> init gen \<Longrightarrow> d \<le> gen_length gen \<Longrightarrow>
    length fi ^ gen_length gen - chain_rank fi (iterators gen) \<le> n \<Longrightarrow>
    (\<forall>s. chain_rank fi (iterators gen) \<le> s \<and>
         s < (chain_rank fi (iterators gen) div length fi ^ d + 1) * length fi ^ d \<and>
         s < length fi ^ gen_length gen \<longrightarrow>
         \<not> chain_fully_valid h ci (gen_sink_caps gen) (gen_src_caps gen)
             (chain_of_rank fi (gen_length gen) s)) \<Longrightarrow>
    search_outcome (generate_next_chain_loop n (gst_auto_convert2_validate_chain h ci) fi gen
       (int d)) =
    Some (Inr (find (chain_fully_valid h ci (gen_sink_caps gen) (gen_src_caps gen))
       (map (chain_of_rank fi (gen_length gen))
          [chain_rank fi (iterators gen)..<length fi ^ gen_length gen])))"
proof (induction n arbitrary: gen d)
  case 0
  from chain_rank_bound [OF 0(1)] 0(2,6) show ?case by simp
next
  case (Suc n)
  let ?vc = "gst_auto_convert2_validate_chain h ci"
  let ?N = "gen_length gen"
  let ?r = "chain_rank fi (iterators gen)"
  let ?M = "length fi ^ ?N"
  let ?P = "chain_fully_valid h ci (gen_sink_caps gen) (gen_src_caps gen)"
  let ?r' = "(?r div length fi ^ d + 1) * length fi ^ d"
  note adv = advance_by_rank [OF fi Suc.prems(1,2,5)]
  from chain_rank_bound [OF Suc.prems(1)] Suc.prems(2) have rM: "?r < ?M" by simp
  have "0 < length fi ^ d" using fi by simp
  then have gt: "?r < ?r'" by (rule rank_after_advance_greater)
  show ?case
  proof (cases "?r' < ?M")
    case False
    have "\<forall>x \<in> set (map (chain_of_rank fi ?N) [?r..<?M]). \<not> ?P x"
      using Suc.prems(7) False by auto
    then have "find ?P (map (chain_of_rank fi ?N) [?r..<?M]) = None"
      by (simp add: find_None_iff)
    moreover have "search_outcome (generate_next_chain_loop (Suc n) ?vc fi gen (int d)) =
        Some (Inr None)"
      using adv False Suc.prems(4) by (simp add: generate_loop_advance search_outcome_def)
    ultimately show ?thesis by simp
  next
    case True
    let ?g = "gen\<lparr>iterators := chain_of_rank fi ?N ?r'\<rparr>"
    have vg: "valid_iterators fi (iterators ?g)" using fi by (simp add: valid_chain_of_rank)
    have lg: "gen_length ?g = length (iterators ?g)" by simp
    have sg: "gen_length ?g < 2 ^ 31" using Suc.prems(3) by simp
    have ig: "\<not> init ?g" using Suc.prems(4) by simp
    have rg: "chain_rank fi (iterators ?g) = ?r'"
      using fi True by (simp add: chain_rank_of_rank)
    have ng: "length fi ^ gen_length ?g - chain_rank fi (iterators ?g) \<le> n"
      using Suc.prems(6) gt unfolding rg by simp
    have step: "generate_next_chain_loop (Suc n) ?vc fi gen (int d) =
        validate_and_continue n ?vc fi ?g"
      using adv True Suc.prems(4) by (simp add: generate_loop_advance)
    have "search_outcome (validate_and_continue n ?vc fi ?g) =
       Some (Inr (find (chain_fully_valid h ci (gen_sink_caps ?g) (gen_src_caps ?g))
          (map (chain_of_rank fi (gen_length ?g))
             [chain_rank fi (iterators ?g)..<length fi ^ gen_length ?g])))"
      using fi vg lg sg
    proof (rule validate_step_refines)
      fix d'
      assume "d' \<le> gen_length ?g"
        and "\<forall>s. chain_rank fi (iterators ?g) \<le> s \<and>
            s < (chain_rank fi (iterators ?g) div length fi ^ d' + 1) * length fi ^ d' \<and>
            s < length fi ^ gen_length ?g \<longrightarrow>
            \<not> chain_fully_valid h ci (gen_sink_caps ?g) (gen_src_caps ?g)
                (chain_of_rank fi (gen_length ?g) s)"
      then show "search_outcome (generate_next_chain_loop n ?vc fi ?g (int d')) =
          Some (Inr (find (chain_fully_valid h ci (gen_sink_caps ?g) (gen_src_caps ?g))
            (map (chain_of_rank fi (gen_length ?g))
               [chain_rank fi (iterators ?g)..<length fi ^ gen_length ?g])))"
        by (rule Suc.IH [OF vg lg sg ig _ ng])
    qed
    then have inner: "search_outcome (validate_and_continue n ?vc fi ?g) =
        Some (Inr (find ?P (map (chain_of_rank fi ?N) [?r'..<?M])))"
      unfolding rg by simp
    have "[?r..<?M] = [?r..<?r'] @ [?r'..<?M]"
      using gt True by (metis less_imp_le_nat upt_add_eq_append le_Suc_ex)
    moreover have "\<forall>x \<in> set (map (chain_of_rank fi ?N) [?r..<?r']). \<not> ?P x"
      using Suc.prems(7) True by auto
    ultimately have "find ?P (map (chain_of_rank fi ?N) [?r..<?M]) =
        find ?P (map (chain_of_rank fi ?N) [?r'..<?M])"
      by (simp add: find_skip_rejected)
    with inner step show ?thesis by simp
  qed
qed

lemma generate_loop_refines_init:
  assumes fi: "fi \<noteq> []" and v: "valid_iterators fi (iterators gen)"
    and len: "gen_length gen = length (iterators gen)" and small: "gen_length gen < 2 ^ 31"
    and i: "init gen"
    and n: "length fi ^ gen_length gen - chain_rank fi (iterators gen) + 1 \<le> n"
  shows "search_outcome (generate_next_chain_loop n (gst_auto_convert2_validate_chain h ci) fi gen
       depth) =
    Some (Inr (find (chain_fully_valid h ci (gen_sink_caps gen) (gen_src_caps gen))
       (map (chain_of_rank fi (gen_length gen))
          [chain_rank fi (iterators gen)..<length fi ^ gen_length gen])))"
proof -
  let ?vc = "gst_auto_convert2_validate_chain h ci"
  let ?g = "gen\<lparr>init := False\<rparr>"
  from n obtain m where m: "n = Suc m" by (cases n) simp_all
  have vg: "valid_iterators fi (iterators ?g)" using v by simp
  have lg: "gen_length ?g = length (iterators ?g)" using len by simp
  have sg: "gen_length ?g < 2 ^ 31" using small by simp
  have ig: "\<not> init ?g" by simp
  have ng: "length fi ^ gen_length ?g - chain_rank fi (iterators ?g) \<le> m"
    using n m by simp
  have "search_outcome (validate_and_continue m ?vc fi ?g) =
       Some (Inr (find (chain_fully_valid h ci (gen_sink_caps ?g) (gen_src_caps ?g))
          (map (chain_of_rank fi (gen_length ?g))
             [chain_rank fi (iterators ?g)..<length fi ^ gen_length ?g])))"
    using fi vg lg sg
  proof (rule validate_step_refines)
    fix d'
    assume "d' \<le> gen_length ?g"
      and "\<forall>s. chain_rank fi (iterators ?g) \<le> s \<and>
          s < (chain_rank fi (iterators ?g) div length fi ^ d' + 1) * length fi ^ d' \<and>
          s < length fi ^ gen_length ?g \<longrightarrow>
          \<not> chain_fully_valid h ci (gen_sink_caps ?g) (gen_src_caps ?g)
              (chain_of_rank fi (gen_length ?g) s)"
    then show "search_outcome (generate_next_chain_loop m ?vc fi ?g (int d')) =
        Some (Inr (find (chain_fully_valid h ci (gen_sink_caps ?g) (gen_src_caps ?g))
          (map (chain_of_rank fi (gen_length ?g))
             [chain_rank fi (iterators ?g)..<length fi ^ gen_length ?g])))"
      by (rule generate_loop_refines_advance [OF fi vg lg sg ig _ ng])
  qed
  then show ?thesis using i unfolding m by (simp add: generate_loop_init)
qed

section \<open>The catalog order seen by the generator\<close>

lemma single_stage_chain_entries:
  "map (\<lambda>chain. chain_entry chain 0) (all_chains fi (Suc 0)) = fi"
proof -
  have "map (\<lambda>chain. chain_entry chain 0) (all_chains fi (Suc 0)) =
        map (\<lambda>r. hd (drop (r mod length fi) fi)) [0..<length fi]"
    by (simp add: all_chains_def chain_entry_def comp_def)
  also have "\<dots> = map (\<lambda>r. fi ! r) [0..<length fi]"
    by (rule map_cong) (simp_all add: hd_drop_conv_nth)
  also have "\<dots> = fi" by (rule map_nth)
  finally show ?thesis .
qed

lemma single_stage_visited_factories:
  assumes "priv_factory_index ac \<noteq> []"
  shows "map_option (map (\<lambda>chain. factory (entries ac (chain_entry chain 0))))
           (visited_chains (length (priv_factory_index ac))
              (init_chain_generator (priv_factory_index ac) route 1) (priv_factory_index ac) 0) =
         Some (indexed_factories ac)"
proof -
  let ?fi = "priv_factory_index ac"
  from visited_chains_depth_zero [OF assms, of 1 route]
  have "visited_chains (length ?fi) (init_chain_generator ?fi route 1) ?fi 0 =
        Some (all_chains ?fi (Suc 0))"
    by simp
  moreover have "map (\<lambda>chain. factory (entries ac (chain_entry chain 0))) (all_chains ?fi (Suc 0)) =
        map (\<lambda>entry. factory (entries ac entry))
          (map (\<lambda>chain. chain_entry chain 0) (all_chains ?fi (Suc 0)))"
    by (simp add: comp_def)
  ultimately show ?thesis
    by (simp only: single_stage_chain_entries indexed_factories_def option.map)
qed

section \<open>Properties of the validators\<close>

text \<open>
  C3. For every candidate chain of length \<open>N\<close> with its \<open>N + 1\<close> boundaries, the
  capability-continuity validator \<^verbatim>\<open>validate_chain_caps\<close> returns \<open>-1\<close> if and only
  if the two capability sets intersect at every boundary, and otherwise returns the
  largest index of a boundary whose two capability sets do not intersect.
\<close>

theorem validate_chain_caps_last_failing_boundary:
  assumes "no_null_cursor chain" and "length chain < 2 ^ 31"
  shows "\<exists>r. validate_chain_caps h can_intersect source_caps destination_caps chain
               (length chain) = Inr r \<and>
           (r = - 1 \<longleftrightarrow>
              (\<forall>i \<le> length chain.
                 boundary_intersects h can_intersect source_caps destination_caps chain i)) \<and>
           (r \<noteq> - 1 \<longrightarrow>
              0 \<le> r \<and> r \<le> int (length chain) \<and>
              \<not> boundary_intersects h can_intersect source_caps destination_caps chain (nat r) \<and>
              (\<forall>i \<le> length chain.
                 \<not> boundary_intersects h can_intersect source_caps destination_caps chain i
                 \<longrightarrow> int i \<le> r))"
proof -
  from validate_chain_caps_result [OF assms, of h can_intersect source_caps destination_caps]
  obtain r where r:
    "validate_chain_caps h can_intersect source_caps destination_caps chain (length chain) = Inr r"
    "- 1 \<le> r" "r \<le> int (length chain)"
    "0 \<le> r \<longrightarrow> \<not> boundary_intersects h can_intersect source_caps destination_caps chain (nat r)"
    "\<forall>j. r < int j \<and> j \<le> length chain \<longrightarrow>
         boundary_intersects h can_intersect source_caps destination_caps chain j"
    by blast
  have all_ok: "r = - 1 \<longleftrightarrow>
      (\<forall>i \<le> length chain.
         boundary_intersects h can_intersect source_caps destination_caps chain i)"
  proof
    assume "r = - 1"
    with r(5) show "\<forall>i \<le> length chain.
        boundary_intersects h can_intersect source_caps destination_caps chain i"
      by simp
  next
    assume ok: "\<forall>i \<le> length chain.
        boundary_intersects h can_intersect source_caps destination_caps chain i"
    show "r = - 1"
    proof (rule ccontr)
      assume "r \<noteq> - 1"
      with r(2) have "0 \<le> r" by simp
      moreover from this r(3) have "nat r \<le> length chain" by simp
      ultimately show False using r(4) ok by blast
    qed
  qed
  have largest: "\<forall>i \<le> length chain.
      \<not> boundary_intersects h can_intersect source_caps destination_caps chain i
      \<longrightarrow> int i \<le> r"
    using r(5) by (meson not_le_imp_less)
  from r all_ok largest show ?thesis by auto
qed

theorem validate_chain_caps_last_failing_boundary_witness:
  "no_null_cursor [[0], [1]] \<and> length [[0 :: nat], [1]] < 2 ^ 31 \<and>
   validate_chain_caps demo_heap (=) 0 5 [[0], [1]] (length [[0 :: nat], [1]]) = Inr 2"
proof -
  have nn: "no_null_cursor [[0], [1]]" by (simp add: no_null_cursor_def)
  have len: "length [[0 :: nat], [1]] < 2 ^ 31" by simp
  have bad: "\<not> boundary_intersects demo_heap (=) 0 5 [[0], [1]] 2"
    by (simp add: boundary_intersects_def chain_entry_def demo_heap_def
        create_factory_index_entry_def)
  from validate_chain_caps_last_failing_boundary [OF nn len, of demo_heap "(=)" 0 5]
  obtain r where r:
    "validate_chain_caps demo_heap (=) 0 5 [[0], [1]] (length [[0 :: nat], [1]]) = Inr r"
    "r = - 1 \<longleftrightarrow> (\<forall>i \<le> length [[0 :: nat], [1]].
        boundary_intersects demo_heap (=) 0 5 [[0], [1]] i)"
    "r \<noteq> - 1 \<longrightarrow> 0 \<le> r \<and> r \<le> int (length [[0 :: nat], [1]]) \<and>
       \<not> boundary_intersects demo_heap (=) 0 5 [[0], [1]] (nat r) \<and>
       (\<forall>i \<le> length [[0 :: nat], [1]].
          \<not> boundary_intersects demo_heap (=) 0 5 [[0], [1]] i \<longrightarrow> int i \<le> r)"
    by blast
  from r(2) bad have ne: "r \<noteq> - 1" by auto
  with r(3) have up: "r \<le> int (length [[0 :: nat], [1]])"
    and lg: "\<And>i. i \<le> length [[0 :: nat], [1]] \<Longrightarrow>
        \<not> boundary_intersects demo_heap (=) 0 5 [[0], [1]] i \<Longrightarrow> int i \<le> r"
    by blast+
  from lg [of 2] bad have "2 \<le> r" by simp
  with up have "r = 2" by simp
  with r(1) nn len show ?thesis by simp
qed

text \<open>
  C4, as the code has it. For every candidate chain of length \<open>N\<close>,
  \<^verbatim>\<open>validate_chain_caps\<close> returns \<open>-1\<close> or a boundary index between 0 and \<open>N\<close>
  (not \<open>N - 1\<close>: the boundary after the last position is index \<open>N\<close>). For \<open>N \<ge> 1\<close>,
  \<^verbatim>\<open>validate_non_consecutive_elements\<close> returns \<open>-1\<close> or a depth between 0 and
  \<open>N - 2\<close>, and \<^verbatim>\<open>gst_auto_convert2_validate_chain\<close> runs the capability validator
  first: its result is the pipeline's result when it is not \<open>-1\<close>, and only otherwise
  is the result of the duplicate validator returned. So the pipeline returns \<open>-1\<close>
  exactly when both validators do.
\<close>

theorem validators_depth_range_and_order:
  assumes "no_null_cursor chain" and "length chain < 2 ^ 31"
  shows "\<exists>dc. validate_chain_caps h can_intersect source_caps destination_caps chain
                (length chain) = Inr dc \<and>
            (dc = - 1 \<or> (0 \<le> dc \<and> dc \<le> int (length chain))) \<and>
            (1 \<le> length chain \<longrightarrow>
               (\<exists>dn. validate_non_consecutive_elements source_caps destination_caps chain
                        (length chain) = Inr dn \<and>
                     (dn = - 1 \<or> (0 \<le> dn \<and> dn \<le> int (length chain) - 2)) \<and>
                     gst_auto_convert2_validate_chain h can_intersect source_caps
                        destination_caps chain (length chain) =
                       Inr (if dc \<noteq> - 1 then dc else dn)))"
proof -
  from validate_chain_caps_result [OF assms, of h can_intersect source_caps destination_caps]
  obtain dc where dc:
    "validate_chain_caps h can_intersect source_caps destination_caps chain (length chain) = Inr dc"
    "- 1 \<le> dc" "dc \<le> int (length chain)"
    by blast
  have range_dc: "dc = - 1 \<or> (0 \<le> dc \<and> dc \<le> int (length chain))"
    using dc(2,3) by arith
  have rest: "\<exists>dn. validate_non_consecutive_elements source_caps destination_caps chain
                        (length chain) = Inr dn \<and>
                     (dn = - 1 \<or> (0 \<le> dn \<and> dn \<le> int (length chain) - 2)) \<and>
                     gst_auto_convert2_validate_chain h can_intersect source_caps
                        destination_caps chain (length chain) =
                       Inr (if dc \<noteq> - 1 then dc else dn)"
    if "1 \<le> length chain"
  proof -
    from validate_non_consecutive_result [OF assms(1) that assms(2),
        of source_caps destination_caps]
    obtain dn where dn:
      "validate_non_consecutive_elements source_caps destination_caps chain (length chain)
         = Inr dn"
      "- 1 \<le> dn" "dn \<le> int (length chain) - 2"
      by blast
    have "dn = - 1 \<or> (0 \<le> dn \<and> dn \<le> int (length chain) - 2)"
      using dn(2,3) by arith
    moreover have "gst_auto_convert2_validate_chain h can_intersect source_caps
        destination_caps chain (length chain) = Inr (if dc \<noteq> - 1 then dc else dn)"
      by (simp add: validate_chain_pipeline dc(1) dn(1))
    ultimately show ?thesis using dn(1) by blast
  qed
  from dc(1) range_dc rest show ?thesis by blast
qed

theorem validators_depth_range_and_order_witness:
  "no_null_cursor [[0], [1]] \<and> length [[0 :: nat], [1]] < 2 ^ 31 \<and>
   1 \<le> length [[0 :: nat], [1]] \<and>
   (\<exists>dc. validate_chain_caps demo_heap (=) 0 5 [[0], [1]] (length [[0 :: nat], [1]]) = Inr dc \<and>
      (dc = - 1 \<or> (0 \<le> dc \<and> dc \<le> int (length [[0 :: nat], [1]]))) \<and>
      (\<exists>dn. validate_non_consecutive_elements (0 :: nat) (5 :: nat) [[0], [1]]
               (length [[0 :: nat], [1]]) = Inr dn \<and>
         (dn = - 1 \<or> (0 \<le> dn \<and> dn \<le> int (length [[0 :: nat], [1]]) - 2)) \<and>
         gst_auto_convert2_validate_chain demo_heap (=) 0 5 [[0], [1]]
            (length [[0 :: nat], [1]]) = Inr (if dc \<noteq> - 1 then dc else dn)))"
proof -
  have nn: "no_null_cursor [[0], [1]]" by (simp add: no_null_cursor_def)
  have len: "length [[0 :: nat], [1]] < 2 ^ 31" by simp
  have pos: "1 \<le> length [[0 :: nat], [1]]" by simp
  from validators_depth_range_and_order [OF nn len, of demo_heap "(=)" 0 5] nn len pos
  show ?thesis by blast
qed

text \<open>
  The claim C4 itself fails: for the chain of the single entry 0 (format 0 to format 1)
  and the destination format 5, the boundary after the last position does not
  intersect and \<^verbatim>\<open>validate_chain_caps\<close> returns 1, which for \<open>N = 1\<close> is neither \<open>-1\<close> nor
  a depth between 0 and \<open>N - 1 = 0\<close>.
\<close>

theorem validate_chain_caps_depth_counterexample:
  "validate_chain_caps demo_heap (=) 0 5 [[0]] 1 = Inr 1 \<and>
   \<not> specified_validator_result 1 (validate_chain_caps demo_heap (=) 0 5 [[0]] 1)"
proof -
  have "validate_chain_caps demo_heap (=) 0 5 [[0]] 1 = Inr 1"
    by (simp add: validate_chain_caps_def guint_to_int_def validate_chain_caps_loop.simps
        upstream_caps_def downstream_caps_def node_data_def demo_heap_def
        create_factory_index_entry_def)
  then show ?thesis by (simp add: specified_validator_result_def)
qed

text \<open>
  C5 at the empty chain. With \<^verbatim>\<open>chain_length = 0\<close> the unsigned \<^verbatim>\<open>chain_length - 2\<close> is
  4294967294, which converted to \<^verbatim>\<open>int\<close> is \<open>-2\<close>; the loop body never runs and
  \<^verbatim>\<open>validate_non_consecutive_elements\<close> returns \<open>-2\<close>, not the sentinel \<open>-1\<close>, although
  the empty chain has no two consecutive positions.
\<close>

theorem validate_non_consecutive_elements_empty_chain:
  "validate_non_consecutive_elements source_caps destination_caps [] 0 = Inr (- 2)"
  by (simp add: validate_non_consecutive_elements_def guint_to_int_def guint_sub_def
      nc_loop_negative)

section \<open>Properties of the catalog build\<close>




text \<open>
  C10. \<^verbatim>\<open>index_factories\<close> prepends each qualifying entry to the factory index, so the
  factories of the index, read from its head, are the qualifying factories in the
  reverse of the order in which \<^verbatim>\<open>get_factories\<close> lists them. \<^verbatim>\<open>init_chain_generator\<close>
  sets each of the \<open>len\<close> cursors to the head of that index, and the chains of one stage
  that the generator then visits, advancing from depth 0 until it is exhausted, use the
  qualifying factories in exactly that reversed order: this is the catalog order that
  decides which of several valid chains of equal length is found first.
\<close>

theorem factory_index_reverses_get_factories_order:
  assumes "priv_factory_index ac = []"
  shows "\<exists>ac'. index_factories (Some factories) caps_new_empty caps_merge ac = Inr ac' \<and>
           indexed_factories ac' =
             rev (filter (\<lambda>fac. fst (find_pad_templates fac)) factories) \<and>
           iterators (init_chain_generator (priv_factory_index ac') transform_route len) =
             replicate len (priv_factory_index ac') \<and>
           (priv_factory_index ac' \<noteq> [] \<longrightarrow>
              map_option (map (\<lambda>chain. factory (entries ac' (chain_entry chain 0))))
                (visited_chains (length (priv_factory_index ac'))
                   (init_chain_generator (priv_factory_index ac') transform_route 1)
                   (priv_factory_index ac') 0) =
              Some (rev (filter (\<lambda>fac. fst (find_pad_templates fac)) factories)))"
proof -
  from index_factories_result [OF assms, of factories caps_new_empty caps_merge]
  obtain ac' where ac':
    "index_factories (Some factories) caps_new_empty caps_merge ac = Inr ac'"
    "indexed_factories ac' = rev (filter (\<lambda>fac. fst (find_pad_templates fac)) factories)"
    by blast
  have "iterators (init_chain_generator (priv_factory_index ac') transform_route len) =
          replicate len (priv_factory_index ac')"
    by (simp add: init_chain_generator_def)
  moreover have "priv_factory_index ac' \<noteq> [] \<longrightarrow>
      map_option (map (\<lambda>chain. factory (entries ac' (chain_entry chain 0))))
        (visited_chains (length (priv_factory_index ac'))
           (init_chain_generator (priv_factory_index ac') transform_route 1)
           (priv_factory_index ac') 0) =
      Some (rev (filter (\<lambda>fac. fst (find_pad_templates fac)) factories))"
    using single_stage_visited_factories [of ac' transform_route] ac'(2) by simp
  ultimately show ?thesis using ac' by blast
qed

theorem factory_index_reverses_get_factories_order_witness:
  "priv_factory_index (demo_element []) = [] \<and>
   (\<exists>ac'. index_factories (Some [demo_factory 0, demo_mixer, demo_factory 1]) 0 max
             (demo_element []) = Inr ac' \<and>
      priv_factory_index ac' \<noteq> [] \<and>
      indexed_factories ac' = [demo_factory 1, demo_factory 0] \<and>
      iterators (init_chain_generator (priv_factory_index ac') (demo_route 0 2) 2) =
        [priv_factory_index ac', priv_factory_index ac'] \<and>
      map_option (map (\<lambda>chain. factory (entries ac' (chain_entry chain 0))))
        (visited_chains (length (priv_factory_index ac'))
           (init_chain_generator (priv_factory_index ac') (demo_route 0 2) 1)
           (priv_factory_index ac') 0) =
      Some [demo_factory 1, demo_factory 0])"
proof -
  have empty: "priv_factory_index (demo_element []) = []"
    by (simp add: demo_element_def)
  have sel: "filter (\<lambda>fac. fst (find_pad_templates fac))
               [demo_factory 0, demo_mixer, demo_factory 1] = [demo_factory 0, demo_factory 1]"
    by (simp add: find_pad_templates_def demo_factory_def demo_mixer_def)
  from factory_index_reverses_get_factories_order
         [OF empty, of "[demo_factory 0, demo_mixer, demo_factory 1]" 0 max "demo_route 0 2" 2]
  obtain ac' where ac':
    "index_factories (Some [demo_factory 0, demo_mixer, demo_factory 1]) 0 max
       (demo_element []) = Inr ac'"
    "indexed_factories ac' =
       rev (filter (\<lambda>fac. fst (find_pad_templates fac))
              [demo_factory 0, demo_mixer, demo_factory 1])"
    "iterators (init_chain_generator (priv_factory_index ac') (demo_route 0 2) 2) =
       replicate 2 (priv_factory_index ac')"
    "priv_factory_index ac' \<noteq> [] \<longrightarrow>
       map_option (map (\<lambda>chain. factory (entries ac' (chain_entry chain 0))))
         (visited_chains (length (priv_factory_index ac'))
            (init_chain_generator (priv_factory_index ac') (demo_route 0 2) 1)
            (priv_factory_index ac') 0) =
       Some (rev (filter (\<lambda>fac. fst (find_pad_templates fac))
              [demo_factory 0, demo_mixer, demo_factory 1]))"
    by blast
  from ac'(2) sel have idx: "indexed_factories ac' = [demo_factory 1, demo_factory 0]" by simp
  then have ne: "priv_factory_index ac' \<noteq> []" by (auto simp: indexed_factories_def)
  from ac'(3) have its: "iterators (init_chain_generator (priv_factory_index ac') (demo_route 0 2) 2) =
        [priv_factory_index ac', priv_factory_index ac']"
    by (simp add: eval_nat_numeral)
  from ac'(4) ne have "map_option (map (\<lambda>chain. factory (entries ac' (chain_entry chain 0))))
        (visited_chains (length (priv_factory_index ac'))
           (init_chain_generator (priv_factory_index ac') (demo_route 0 2) 1)
           (priv_factory_index ac') 0) =
      Some (rev (filter (\<lambda>fac. fst (find_pad_templates fac))
              [demo_factory 0, demo_mixer, demo_factory 1]))"
    by (rule mp)
  then have vis: "map_option (map (\<lambda>chain. factory (entries ac' (chain_entry chain 0))))
        (visited_chains (length (priv_factory_index ac'))
           (init_chain_generator (priv_factory_index ac') (demo_route 0 2) 1)
           (priv_factory_index ac') 0) =
      Some [demo_factory 1, demo_factory 0]"
    unfolding sel by simp
  show ?thesis
    by (intro conjI exI [of _ ac']) (rule empty ac'(1) ne idx its vis)+
qed

section \<open>Properties of the chain generator\<close>

text \<open>
  C2. For every generator state of \<open>N\<close> cursors, none of them \<^verbatim>\<open>NULL\<close>, over a non-empty
  catalog and every starting depth \<open>d < N\<close>, \<^verbatim>\<open>advance_chain_generator\<close> behaves like an
  odometer. Let \<open>j\<close> be the first position from \<open>d\<close> upwards whose cursor is not at the
  last catalog entry. The cursors at the positions \<open>d, ..., j - 1\<close> wrap and are reset to
  the first entry, and the carry moves the cursor at position \<open>j\<close> to the next entry;
  the function then resets every cursor below \<open>d\<close> to the first entry, leaves the
  cursors above \<open>j\<close> as they are and returns \<^verbatim>\<open>TRUE\<close>. It returns \<^verbatim>\<open>FALSE\<close> (exhausted)
  exactly when there is no such \<open>j\<close>, that is when the carry runs past position \<open>N - 1\<close>.
\<close>

theorem advance_chain_generator_odometer:
  assumes "factory_index \<noteq> []" and "no_null_cursor (iterators gen)"
    and "gen_length gen = length (iterators gen)" and "d < gen_length gen"
  shows "\<exists>j. d \<le> j \<and> j \<le> gen_length gen \<and>
           (\<forall>i. d \<le> i \<and> i < j \<longrightarrow> at_last_entry (iterators gen ! i)) \<and>
           (j < gen_length gen \<longrightarrow> \<not> at_last_entry (iterators gen ! j)) \<and>
           advance_chain_generator gen factory_index d =
             Inr (if j < gen_length gen
                  then (True, gen\<lparr>iterators :=
                          replicate j factory_index @ tl (iterators gen ! j) #
                          drop (Suc j) (iterators gen)\<rparr>)
                  else (False, gen\<lparr>iterators :=
                          take d (iterators gen) @
                          replicate (gen_length gen - d) factory_index\<rparr>))"
proof (intro exI [of _ "carry_stop (iterators gen) d"] conjI)
  from assms(3,4) have dl: "d \<le> length (iterators gen)" by simp
  from carry_stop_bounds [OF dl] assms(3)
  show "d \<le> carry_stop (iterators gen) d" "carry_stop (iterators gen) d \<le> gen_length gen"
    by simp_all
  show "\<forall>i. d \<le> i \<and> i < carry_stop (iterators gen) d \<longrightarrow> at_last_entry (iterators gen ! i)"
    by (blast intro: carry_stop_all_last)
  show "carry_stop (iterators gen) d < gen_length gen \<longrightarrow>
        \<not> at_last_entry (iterators gen ! carry_stop (iterators gen) d)"
    using assms(3) by (auto dest: carry_stop_not_last)
  from assms(4) have "d \<le> gen_length gen" by simp
  from advance_chain_generator_char [OF assms(1-3) this]
  show "advance_chain_generator gen factory_index d =
     Inr (if carry_stop (iterators gen) d < gen_length gen
          then (True, gen\<lparr>iterators :=
                  replicate (carry_stop (iterators gen) d) factory_index @
                  tl (iterators gen ! carry_stop (iterators gen) d) #
                  drop (Suc (carry_stop (iterators gen) d)) (iterators gen)\<rparr>)
          else (False, gen\<lparr>iterators :=
                  take d (iterators gen) @ replicate (gen_length gen - d) factory_index\<rparr>))" .
qed

theorem advance_chain_generator_odometer_witness:
  "[1, 0 :: nat] \<noteq> [] \<and> no_null_cursor (iterators demo_generator) \<and>
   gen_length demo_generator = length (iterators demo_generator) \<and>
   0 < gen_length demo_generator \<and>
   advance_chain_generator demo_generator [1, 0] 0 =
     Inr (True, demo_generator\<lparr>iterators := [[1, 0], [0]]\<rparr>)"
proof -
  have h1: "[1, 0 :: nat] \<noteq> []" by simp
  have h2: "no_null_cursor (iterators demo_generator)"
    by (simp add: demo_generator_def no_null_cursor_def)
  have h3: "gen_length demo_generator = length (iterators demo_generator)"
    by (simp add: demo_generator_def)
  have h4: "0 < gen_length demo_generator" by (simp add: demo_generator_def)
  have its: "iterators demo_generator = [[0], [1, 0]]" "gen_length demo_generator = 2"
    by (simp_all add: demo_generator_def)
  from advance_chain_generator_odometer [OF h1 h2 h3 h4]
  obtain j where j: "j \<le> gen_length demo_generator"
    "\<forall>i. 0 \<le> i \<and> i < j \<longrightarrow> at_last_entry (iterators demo_generator ! i)"
    "j < gen_length demo_generator \<longrightarrow> \<not> at_last_entry (iterators demo_generator ! j)"
    "advance_chain_generator demo_generator [1, 0] 0 =
       Inr (if j < gen_length demo_generator
            then (True, demo_generator\<lparr>iterators :=
                    replicate j [1, 0] @ tl (iterators demo_generator ! j) #
                    drop (Suc j) (iterators demo_generator)\<rparr>)
            else (False, demo_generator\<lparr>iterators :=
                    take 0 (iterators demo_generator) @
                    replicate (gen_length demo_generator - 0) [1, 0]\<rparr>))"
    by blast
  have "j \<noteq> 0"
  proof
    assume "j = 0"
    with j(3) show False by (simp add: its at_last_entry_def)
  qed
  moreover have "j \<noteq> 2"
  proof
    assume "j = 2"
    with j(2) have "at_last_entry (iterators demo_generator ! 1)" by simp
    then show False by (simp add: its at_last_entry_def)
  qed
  ultimately have "j = 1" using j(1) by (simp add: its)
  with j(4) have "advance_chain_generator demo_generator [1, 0] 0 =
     Inr (True, demo_generator\<lparr>iterators := [[1, 0], [0]]\<rparr>)"
    by (simp add: its)
  with h1 h2 h3 h4 show ?thesis by blast
qed

text \<open>
  C8, as the code has it. Starting from the initial generator state (all \<open>N\<close> cursors at
  the first catalog entry) over a catalog of size \<open>K \<ge> 1\<close>, calling
  \<^verbatim>\<open>advance_chain_generator\<close> again and again with starting depth 0 visits every one of
  the \<open>K ^ N\<close> arrays of \<open>N\<close> catalog cursors exactly once before the generator is
  exhausted: the chains visited are \<open>all_chains\<close>, a list without repetition, of length
  \<open>K ^ N\<close>, whose elements are exactly the arrays of \<open>N\<close> valid cursors. The \<open>K ^ N\<close>-th
  call is the one that reports exhaustion.
\<close>

theorem advance_from_depth_zero_visits_all_chains:
  assumes "factory_index \<noteq> []"
  shows "visited_chains (length factory_index ^ n)
           (init_chain_generator factory_index route n) factory_index 0 =
           Some (all_chains factory_index n) \<and>
         distinct (all_chains factory_index n) \<and>
         length (all_chains factory_index n) = length factory_index ^ n \<and>
         set (all_chains factory_index n) =
           {its. length its = n \<and> valid_iterators factory_index its}"
  using assms
  by (simp add: visited_chains_depth_zero distinct_all_chains set_all_chains)
     (simp add: all_chains_def)

theorem advance_from_depth_zero_visits_all_chains_witness:
  "[1, 0 :: nat] \<noteq> [] \<and>
   visited_chains 4 (init_chain_generator [1, 0] (demo_route 0 2) 2) [1, 0] 0 =
     Some [[[1, 0], [1, 0]], [[0], [1, 0]], [[1, 0], [0]], [[0], [0]]]"
proof -
  have h: "[1, 0 :: nat] \<noteq> []" by simp
  have four: "length [1, 0 :: nat] ^ 2 = 4" by (simp add: eval_nat_numeral)
  have "all_chains [1, 0] 2 = [[[1, 0], [1, 0]], [[0], [1, 0]], [[1, 0], [0]], [[0], [0]]]"
    by code_simp
  with advance_from_depth_zero_visits_all_chains [OF h, of 2 "demo_route 0 2"] four h
  show ?thesis by simp
qed

text \<open>
  The claim C8 itself fails: with starting depth \<open>N - 1\<close> every call resets the cursors
  below position \<open>N - 1\<close>. Over the two-entry catalog \<open>[1, 0]\<close> and for \<open>N = 2\<close>, advancing
  from depth 1 visits two of the four chains and is then exhausted.
\<close>

theorem advance_from_last_depth_counterexample:
  "visited_chains 4 (init_chain_generator [1, 0] (demo_route 0 2) 2) [1, 0] 1 =
     Some [[[1, 0], [1, 0]], [[1, 0], [0]]]"
  by (simp add: eval_nat_numeral init_chain_generator_def advance_chain_generator_def
      advance_loop.simps reset_loop.simps)



text \<open>
  C1. For every non-empty catalog of size \<open>K\<close>, every route and every chain length \<open>N\<close>,
  the pruning search of \<^verbatim>\<open>generate_next_chain\<close>, started on a freshly initialised
  generator, yields what the naive enumerator yields: the first fully valid chain among
  all \<open>K ^ N\<close> candidates taken in generator order, and failure exactly when no
  candidate is fully valid. The validator pipeline accepts a chain (returns a negative
  depth) exactly when the chain is fully valid; and when it rejects a chain with depth
  \<open>v\<close>, every chain of the same length that has the same cursors from position
  \<open>pruning_depth v\<close> on, which are the chains a pruning advance skips, is not fully
  valid either.
\<close>

theorem generate_next_chain_refines_naive_enumerator:
  assumes "priv_factory_index ac \<noteq> []" and "len < 2 ^ 31"
    and "length (priv_factory_index ac) ^ len + 1 \<le> n"
  shows "search_outcome
           (generate_next_chain n (gst_auto_convert2_validate_chain (entries ac) can_intersect) ac
              (init_chain_generator (priv_factory_index ac) route len)) =
         Some (Inr (naive_first_valid_chain (entries ac) can_intersect route
                      (priv_factory_index ac) len)) \<and>
         (\<forall>c. valid_iterators (priv_factory_index ac) c \<and> length c = len \<longrightarrow>
            (\<exists>v. gst_auto_convert2_validate_chain (entries ac) can_intersect
                    (route_sink_caps route) (route_src_caps route) c len = Inr v \<and>
                 (v < 0 \<longleftrightarrow>
                    chain_fully_valid (entries ac) can_intersect
                      (route_sink_caps route) (route_src_caps route) c) \<and>
                 (0 \<le> v \<longrightarrow> pruning_depth v \<le> len \<and>
                    (\<forall>c'. length c' = len \<and>
                          drop (pruning_depth v) c' = drop (pruning_depth v) c \<longrightarrow>
                          \<not> chain_fully_valid (entries ac) can_intersect
                              (route_sink_caps route) (route_src_caps route) c'))))"
proof
  let ?fi = "priv_factory_index ac"
  let ?gen = "init_chain_generator ?fi route len"
  have v: "valid_iterators ?fi (iterators ?gen)"
    using assms(1) by (rule init_chain_generator_valid)
  have l: "gen_length ?gen = length (iterators ?gen)" by simp
  have s: "gen_length ?gen < 2 ^ 31" using assms(2) by simp
  have i: "init ?gen" by (simp add: init_chain_generator_def)
  have n: "length ?fi ^ gen_length ?gen - chain_rank ?fi (iterators ?gen) + 1 \<le> n"
    using assms(3) by simp
  have caps: "gen_sink_caps ?gen = route_sink_caps route" "gen_src_caps ?gen = route_src_caps route"
    by (simp_all add: init_chain_generator_def)
  from generate_loop_refines_init [OF assms(1) v l s i n, of "entries ac" can_intersect 0]
  show "search_outcome
           (generate_next_chain n (gst_auto_convert2_validate_chain (entries ac) can_intersect) ac
              ?gen) =
         Some (Inr (naive_first_valid_chain (entries ac) can_intersect route ?fi len))"
    using assms(1)
    by (simp add: generate_next_chain_def naive_first_valid_chain_def all_chains_def caps)
next
  let ?fi = "priv_factory_index ac"
  show "\<forall>c. valid_iterators ?fi c \<and> length c = len \<longrightarrow>
            (\<exists>v. gst_auto_convert2_validate_chain (entries ac) can_intersect
                    (route_sink_caps route) (route_src_caps route) c len = Inr v \<and>
                 (v < 0 \<longleftrightarrow>
                    chain_fully_valid (entries ac) can_intersect
                      (route_sink_caps route) (route_src_caps route) c) \<and>
                 (0 \<le> v \<longrightarrow> pruning_depth v \<le> len \<and>
                    (\<forall>c'. length c' = len \<and>
                          drop (pruning_depth v) c' = drop (pruning_depth v) c \<longrightarrow>
                          \<not> chain_fully_valid (entries ac) can_intersect
                              (route_sink_caps route) (route_src_caps route) c')))"
  proof (intro allI impI)
    fix c assume c: "valid_iterators ?fi c \<and> length c = len"
    then have nn: "no_null_cursor c" by (blast intro: valid_iterators_no_null)
    from c assms(2) have small: "length c < 2 ^ 31" by simp
    from validate_chain_contract [OF nn small, of "entries ac" can_intersect
        "route_sink_caps route" "route_src_caps route"] c
    show "\<exists>v. gst_auto_convert2_validate_chain (entries ac) can_intersect
                    (route_sink_caps route) (route_src_caps route) c len = Inr v \<and>
                 (v < 0 \<longleftrightarrow>
                    chain_fully_valid (entries ac) can_intersect
                      (route_sink_caps route) (route_src_caps route) c) \<and>
                 (0 \<le> v \<longrightarrow> pruning_depth v \<le> len \<and>
                    (\<forall>c'. length c' = len \<and>
                          drop (pruning_depth v) c' = drop (pruning_depth v) c \<longrightarrow>
                          \<not> chain_fully_valid (entries ac) can_intersect
                              (route_sink_caps route) (route_src_caps route) c'))"
      by simp
  qed
qed

theorem generate_next_chain_refines_naive_enumerator_witness:
  "priv_factory_index (demo_element [1, 0]) \<noteq> [] \<and> (2 :: nat) < 2 ^ 31 \<and>
   length (priv_factory_index (demo_element [1, 0])) ^ 2 + 1 \<le> (5 :: nat) \<and>
   search_outcome
     (generate_next_chain 5 (gst_auto_convert2_validate_chain (entries (demo_element [1, 0])) (=))
        (demo_element [1, 0]) (init_chain_generator [1, 0] (demo_route 0 2) 2)) =
   Some (Inr (Some [[0], [1, 0]]))"
proof -
  let ?ac = "demo_element [1, 0]"
  have fi: "priv_factory_index ?ac = [1, 0]" by (simp add: demo_element_def)
  have h1: "priv_factory_index ?ac \<noteq> []" unfolding fi by simp
  have h2: "(2 :: nat) < 2 ^ 31" by simp
  have h3: "length (priv_factory_index ?ac) ^ 2 + 1 \<le> (5 :: nat)"
    unfolding fi by (simp add: eval_nat_numeral)
  have naive: "naive_first_valid_chain (entries ?ac) (=) (demo_route 0 2) [1, 0] 2 =
      Some [[0], [1, 0]]"
    by code_simp
  from generate_next_chain_refines_naive_enumerator [OF h1 h2 h3, of "(=)" "demo_route 0 2"]
  have "search_outcome
     (generate_next_chain 5 (gst_auto_convert2_validate_chain (entries ?ac) (=)) ?ac
        (init_chain_generator (priv_factory_index ?ac) (demo_route 0 2) 2)) =
     Some (Inr (naive_first_valid_chain (entries ?ac) (=) (demo_route 0 2)
                  (priv_factory_index ?ac) 2))"
    by (rule conjunct1)
  then have "search_outcome
     (generate_next_chain 5 (gst_auto_convert2_validate_chain (entries ?ac) (=)) ?ac
        (init_chain_generator [1, 0] (demo_route 0 2) 2)) =
     Some (Inr (Some [[0], [1, 0]]))"
    unfolding fi naive .
  with h1 h2 h3 show ?thesis by blast
qed

text \<open>
  C7, as the code has it. When the factory index is empty, \<^verbatim>\<open>generate_next_chain\<close>
  returns \<^verbatim>\<open>FALSE\<close> at once, for every chain length, 0 included, and whatever the route:
  validation is never reached. When the index is not empty, a search for a chain of
  length 0 succeeds exactly when the source and the destination capabilities
  intersect.
\<close>

theorem empty_catalog_fails_every_length:
  "(priv_factory_index ac = [] \<longrightarrow>
      generate_next_chain n validate_chain ac gen = Some (Inr (False, gen))) \<and>
   (priv_factory_index ac \<noteq> [] \<and> 2 \<le> n \<longrightarrow>
      generate_next_chain n (gst_auto_convert2_validate_chain h can_intersect) ac
        (init_chain_generator (priv_factory_index ac) route 0) =
      Some (Inr (can_intersect (route_sink_caps route) (route_src_caps route),
                 (init_chain_generator (priv_factory_index ac) route 0)\<lparr>init := False\<rparr>)))"
proof -
  have "generate_next_chain n (gst_auto_convert2_validate_chain h can_intersect) ac
        (init_chain_generator (priv_factory_index ac) route 0) =
      Some (Inr (can_intersect (route_sink_caps route) (route_src_caps route),
                 (init_chain_generator (priv_factory_index ac) route 0)\<lparr>init := False\<rparr>))"
    if "priv_factory_index ac \<noteq> []" "2 \<le> n"
  proof -
    from that(2) obtain m where "n = Suc (Suc m)"
      by (metis Suc_le_D numeral_2_eq_2 Suc_le_mono)
    with that(1) show ?thesis
      by (simp only: generate_next_chain_def generate_loop_length_zero if_False)
  qed
  then show ?thesis by (simp add: generate_next_chain_def)
qed

theorem empty_catalog_fails_every_length_witness:
  "priv_factory_index (demo_element []) = [] \<and>
   generate_next_chain 2 (gst_auto_convert2_validate_chain demo_heap (=)) (demo_element [])
     (init_chain_generator [] (demo_route 3 3) 1) =
   Some (Inr (False, init_chain_generator [] (demo_route 3 3) 1)) \<and>
   priv_factory_index (demo_element [0]) \<noteq> [] \<and> (2 :: nat) \<le> 2 \<and>
   generate_next_chain 2 (gst_auto_convert2_validate_chain demo_heap (=)) (demo_element [0])
     (init_chain_generator [0] (demo_route 3 3) 0) =
   Some (Inr (True, (init_chain_generator [0] (demo_route 3 3) 0)\<lparr>init := False\<rparr>))"
proof -
  have e: "priv_factory_index (demo_element []) = []" by (simp add: demo_element_def)
  have ne: "priv_factory_index (demo_element [0]) \<noteq> []" by (simp add: demo_element_def)
  have idx: "priv_factory_index (demo_element [0]) = [0]" by (simp add: demo_element_def)
  have two: "(2 :: nat) \<le> 2" by simp
  from empty_catalog_fails_every_length
         [of "demo_element []" 2 "gst_auto_convert2_validate_chain demo_heap (=)"
             "init_chain_generator [] (demo_route 3 3) 1"] e
  have first: "generate_next_chain 2 (gst_auto_convert2_validate_chain demo_heap (=))
      (demo_element []) (init_chain_generator [] (demo_route 3 3) 1) =
      Some (Inr (False, init_chain_generator [] (demo_route 3 3) 1))"
    by blast
  from empty_catalog_fails_every_length
         [of "demo_element [0]" 2 "gst_auto_convert2_validate_chain demo_heap (=)"
             "init_chain_generator [] (demo_route 3 3) 1" demo_heap "(=)" "demo_route 3 3"] ne two
  have second: "generate_next_chain 2 (gst_auto_convert2_validate_chain demo_heap (=))
      (demo_element [0]) (init_chain_generator [0] (demo_route 3 3) 0) =
      Some (Inr (True, (init_chain_generator [0] (demo_route 3 3) 0)\<lparr>init := False\<rparr>))"
    by (simp add: idx demo_route_def)
  from e ne two first second show ?thesis by blast
qed

text \<open>
  The claim C7 itself fails: with an empty factory index and a route whose source and
  destination capabilities are both format 3, and so intersect, the search for a chain
  of length 0 still reports failure.
\<close>

theorem empty_catalog_length_zero_counterexample:
  "generate_next_chain 2 (gst_auto_convert2_validate_chain demo_heap (=)) (demo_element [])
     (init_chain_generator [] (demo_route 3 3) 0) =
   Some (Inr (False, init_chain_generator [] (demo_route 3 3) 0))"
  by (simp add: generate_next_chain_def demo_element_def)

end
